theory Spec2Isabelle
  imports Main
begin

section \<open>The Halide thread pool (src/runtime/thread\_pool\_common.h)\<close>

text \<open>
  The scheduler is a monitor: one mutex guards every field of the work queue and of the
  work records (but for the read of \<^verbatim>\<open>job.exit_status\<close> at the return of line 219), and
  a thread gives the mutex up only in \<^verbatim>\<open>halide_mutex_unlock\<close> and \<^verbatim>\<open>halide_cond_wait\<close>. The embedding therefore takes each critical section of the
  source as one atomic step of the thread that runs it, and interleaves the steps of the
  threads. What a thread does next is read off the top frame of its call stack.

  C \<^verbatim>\<open>int\<close> values are modelled as \<^typ>\<open>int\<close>; signed overflow is undefined in the source
  and is not modelled. Every activation of \<^verbatim>\<open>default_do_par_for\<close> owns one work record
  (a local variable of the activation); the model gives each activation an address of its
  own and remembers which activations have returned, so that a use of the record after
  the return of its owner is visible as a fault of the step.
\<close>

subsection \<open>Tasks and user code\<close>

type_synonym addr = nat
type_synonym ptr = nat
type_synonym tid = nat

text \<open>
  User code as far as the scheduler can see it: it returns a status, or it calls
  \<^verbatim>\<open>halide_do_par_for (user_context, f, min, size, closure)\<close> and goes on with the status
  that call returns, or it calls \<^verbatim>\<open>halide_shutdown_thread_pool ()\<close> and goes on.
  A task \<^verbatim>\<open>int (*f)(void *, int, uint8_t *)\<close> maps its three arguments to such code.
\<close>

datatype prog =
    Return int
  | Par_for ptr "ptr \<Rightarrow> int \<Rightarrow> ptr \<Rightarrow> prog" int int ptr "int \<Rightarrow> prog"
  | Shutdown_thread_pool prog

type_synonym halide_task_t = "ptr \<Rightarrow> int \<Rightarrow> ptr \<Rightarrow> prog"

subsection \<open>The data of the source\<close>

text \<open>\<^verbatim>\<open>struct work\<close>; the fields \<^verbatim>\<open>f\<close>, \<^verbatim>\<open>next\<close> and \<^verbatim>\<open>max\<close> are renamed
  \<open>f_task\<close>, \<open>next_idx\<close> and \<open>max_idx\<close>.\<close>

record work =
  next_job :: "addr option"
  f_task :: halide_task_t
  user_context :: ptr
  next_idx :: int
  max_idx :: int
  closure :: ptr
  active_workers :: int
  exit_status :: int

definition work_running :: "work \<Rightarrow> bool" where
  "work_running w \<longleftrightarrow> next_idx w < max_idx w \<or> active_workers w > 0"

definition MAX_THREADS :: int where
  "MAX_THREADS = 64"

text \<open>The mutex and the condition variables are not part of this file of the runtime. Of
  each of them the embedding keeps how far its life has come: the zeroed storage of a
  static global, after \<^verbatim>\<open>halide_cond_init\<close>, or after \<^verbatim>\<open>halide_mutex_destroy\<close> or
  \<^verbatim>\<open>halide_cond_destroy\<close>. The source never initializes the mutex: it locks the zeroed
  storage (comment of lines 137-138), and after a shutdown the storage as
  \<^verbatim>\<open>halide_mutex_destroy\<close> has left it; a lock is taken to work on both.\<close>

datatype primitive = Zeroed | Initialized | Destroyed

text \<open>\<^verbatim>\<open>struct work_queue_t\<close>. The mutex is the atomicity of the steps; who sleeps on
  which condition variable is read off the call stacks below.\<close>

record work_queue_t =
  mutex :: primitive
  jobs :: "addr option"
  a_team_size :: int
  target_a_team_size :: int
  wakeup_owners :: primitive
  wakeup_a_team :: primitive
  wakeup_b_team :: primitive
  threads :: "nat \<Rightarrow> tid"
  shutdown :: bool

definition queue_running :: "work_queue_t \<Rightarrow> bool" where
  "queue_running q \<longleftrightarrow> \<not> shutdown q"

datatype halide_cond = Wakeup_owners | Wakeup_a_team | Wakeup_b_team

text \<open>What the host gives the runtime: the environment, the C library's \<^verbatim>\<open>atoi\<close> and
  \<^verbatim>\<open>halide_host_cpu_count\<close>.\<close>

record host =
  getenv :: "string \<Rightarrow> string option"
  atoi :: "string \<Rightarrow> int"
  halide_host_cpu_count :: int

subsection \<open>Call stacks\<close>

text \<open>
  One frame for each place at which a thread can stand between two critical sections.
  \<^item> \<open>User p\<close>: code outside the scheduler (the bottom frame of a client thread).
  \<^item> \<open>Task owned job idx p\<close>: inside \<^verbatim>\<open>worker_thread (owned)\<close>, between lines 112 and 115,
    running the task claimed from \<open>job\<close> at index \<open>idx\<close>; \<open>p\<close> is what is left of it.
  \<^item> \<open>Pushed job wake_b_team\<close>: inside \<^verbatim>\<open>default_do_par_for\<close> after line 204.
  \<^item> \<open>Enter owned\<close>: at line 67 of \<^verbatim>\<open>worker_thread (owned)\<close>.
  \<^item> \<open>Wait c owned\<close>: asleep in \<^verbatim>\<open>halide_cond_wait\<close> on \<open>c\<close>.
  \<^item> \<open>Woken c owned\<close>: woken from that wait and about to take the mutex again.
  \<^item> \<open>Leave job\<close>: inside \<^verbatim>\<open>default_do_par_for\<close>, back from \<^verbatim>\<open>worker_thread (&job)\<close>
    (the mutex was given up at line 132) and before the \<^verbatim>\<open>return job.exit_status\<close> of
    line 219, which reads the job without the mutex.
  \<^item> \<open>Join\<close>: inside \<^verbatim>\<open>halide_shutdown_thread_pool\<close> at the loop of line 244.
\<close>

datatype frame =
    User prog
  | Task "addr option" addr int prog
  | Pushed addr bool
  | Enter "addr option"
  | Wait halide_cond "addr option"
  | Woken halide_cond "addr option"
  | Leave addr
  | Join

text \<open>The globals of the runtime, the work records by address, the call stacks of the
  threads (top frame first; the empty stack is a thread that has finished), and the
  history of the run: which activations have returned what, which jobs were submitted
  (address, \<open>min\<close>, \<open>size\<close>), which task invocations were started (job, index), which
  have finished (job, index, status), and how many times the pool was shut down.\<close>

record state =
  num_threads :: int
  thread_pool_initialized :: bool
  work_queue :: work_queue_t
  heap :: "addr \<Rightarrow> work"
  n_alloc :: nat
  stacks :: "frame list list"
  returned :: "addr \<Rightarrow> int option"
  submitted :: "(addr \<times> int \<times> int) list"
  invoked :: "(addr \<times> int) list"
  completed :: "(addr \<times> int \<times> int) list"
  shutdowns :: nat

datatype stop =
    No_thread
  | Exited
  | Blocked
  | Dangling_job addr

subsection \<open>Condition variables\<close>

fun wake :: "(halide_cond \<Rightarrow> bool) \<Rightarrow> frame list \<Rightarrow> frame list" where
  "wake cs (Wait c owned # fs) = (if cs c then Woken c owned # fs else Wait c owned # fs)"
| "wake cs fs = fs"

definition halide_cond_broadcast :: "(halide_cond \<Rightarrow> bool) \<Rightarrow> state \<Rightarrow> state" where
  "halide_cond_broadcast cs s = s\<lparr>stacks := map (wake cs) (stacks s)\<rparr>"

definition set_top :: "tid \<Rightarrow> frame \<Rightarrow> state \<Rightarrow> state" where
  "set_top t fr s = s\<lparr>stacks := (stacks s)[t := fr # tl (stacks s ! t)]\<rparr>"

definition push_frame :: "tid \<Rightarrow> frame \<Rightarrow> state \<Rightarrow> state" where
  "push_frame t fr s = s\<lparr>stacks := (stacks s)[t := fr # stacks s ! t]\<rparr>"

subsection \<open>Returning into the caller\<close>

fun continue :: "int \<Rightarrow> prog \<Rightarrow> prog" where
  "continue v (Par_for uc f mn sz cl k) = k v"
| "continue v (Shutdown_thread_pool k) = k"
| "continue v (Return r) = Return r"

fun resume :: "int \<Rightarrow> frame list \<Rightarrow> frame list" where
  "resume v (User p # fs) = User (continue v p) # fs"
| "resume v (Task owned job idx p # fs) = Task owned job idx (continue v p) # fs"
| "resume v fs = fs"

definition return_to :: "tid \<Rightarrow> int \<Rightarrow> state \<Rightarrow> state" where
  "return_to t v s = s\<lparr>stacks := (stacks s)[t := resume v (stacks s ! t)]\<rparr>"

definition pop_frame :: "tid \<Rightarrow> int \<Rightarrow> state \<Rightarrow> state" where
  "pop_frame t v s = s\<lparr>stacks := (stacks s)[t := resume v (tl (stacks s ! t))]\<rparr>"

subsection \<open>\<^verbatim>\<open>default_do_task\<close> and \<^verbatim>\<open>worker_thread\<close>\<close>

definition default_do_task :: "ptr \<Rightarrow> halide_task_t \<Rightarrow> int \<Rightarrow> ptr \<Rightarrow> prog" where
  "default_do_task uc f idx cl = f uc idx cl"

text \<open>Lines 132-133: the loop is left and the mutex given up. A spawned worker leaves
  its thread function; an owner is back in \<^verbatim>\<open>default_do_par_for\<close>.\<close>

definition worker_thread_return :: "tid \<Rightarrow> addr option \<Rightarrow> state \<Rightarrow> state" where
  "worker_thread_return t owned_job s =
     (case owned_job of
        None \<Rightarrow> s\<lparr>stacks := (stacks s)[t := tl (stacks s ! t)]\<rparr>
      | Some oj \<Rightarrow> set_top t (Leave oj) s)"

text \<open>Lines 93-114: claim a task from the job on top of the stack.\<close>

definition claim :: "tid \<Rightarrow> addr option \<Rightarrow> addr \<Rightarrow> state \<Rightarrow> state" where
  "claim t owned_job job s =
     (let myjob = heap s job;
          j1 = myjob\<lparr>next_idx := next_idx myjob + 1\<rparr>;
          q1 = (if next_idx j1 = max_idx j1
                then (work_queue s)\<lparr>jobs := next_job j1\<rparr> else work_queue s);
          j2 = j1\<lparr>active_workers := active_workers j1 + 1\<rparr>
      in set_top t
           (Task owned_job job (next_idx myjob)
              (default_do_task (user_context myjob) (f_task myjob) (next_idx myjob)
                 (closure myjob)))
           (s\<lparr>work_queue := q1, heap := (heap s)(job := j2),
              invoked := invoked s @ [(job, next_idx myjob)]\<rparr>))"

text \<open>Lines 73-131 from the loop test, with the mutex held, up to the point where the
  thread gives the mutex up: it returns, goes to sleep, or claims a task.\<close>

definition worker_thread_loop :: "tid \<Rightarrow> addr option \<Rightarrow> state \<Rightarrow> stop + state" where
  "worker_thread_loop t owned_job s =
     (if (case owned_job of Some oj \<Rightarrow> work_running (heap s oj)
                            | None \<Rightarrow> queue_running (work_queue s))
      then
        (case jobs (work_queue s) of
           None \<Rightarrow>
             if owned_job \<noteq> None then Inr (set_top t (Wait Wakeup_owners owned_job) s)
             else if a_team_size (work_queue s) \<le> target_a_team_size (work_queue s)
             then Inr (set_top t (Wait Wakeup_a_team owned_job) s)
             else Inr (set_top t (Wait Wakeup_b_team owned_job)
                    (s\<lparr>work_queue := (work_queue s)
                         \<lparr>a_team_size := a_team_size (work_queue s) - 1\<rparr>\<rparr>))
         | Some job \<Rightarrow>
             if returned s job \<noteq> None then Inl (Dangling_job job)
             else Inr (claim t owned_job job s))
      else Inr (worker_thread_return t owned_job s))"

text \<open>Line 90: back from the wait on \<^verbatim>\<open>wakeup_b_team\<close>.\<close>

definition after_wait :: "tid \<Rightarrow> halide_cond \<Rightarrow> addr option \<Rightarrow> state \<Rightarrow> state" where
  "after_wait t c owned_job s =
     set_top t (Enter owned_job)
       (if c = Wakeup_b_team
        then s\<lparr>work_queue := (work_queue s)\<lparr>a_team_size := a_team_size (work_queue s) + 1\<rparr>\<rparr>
        else s)"

text \<open>Lines 115-129: the task has returned \<open>result\<close>.\<close>

definition after_task :: "tid \<Rightarrow> addr option \<Rightarrow> addr \<Rightarrow> int \<Rightarrow> int \<Rightarrow> state \<Rightarrow> state" where
  "after_task t owned_job job idx result s =
     (let j0 = heap s job;
          j1 = (if result \<noteq> 0 then j0\<lparr>exit_status := result\<rparr> else j0);
          j2 = j1\<lparr>active_workers := active_workers j1 - 1\<rparr>;
          s1 = set_top t (Enter owned_job)
                 (s\<lparr>heap := (heap s)(job := j2),
                    completed := completed s @ [(job, idx, result)]\<rparr>)
      in if \<not> work_running j2 \<and> Some job \<noteq> owned_job
         then halide_cond_broadcast (\<lambda>c. c = Wakeup_owners) s1 else s1)"

subsection \<open>\<^verbatim>\<open>default_do_par_for\<close>\<close>

text \<open>Lines 148-165: the size of the pool.\<close>

definition pool_size :: "host \<Rightarrow> int \<Rightarrow> int" where
  "pool_size h n0 =
     (let n1 = (if n0 = 0
                then (case (case getenv h ''HL_NUM_THREADS'' of
                              None \<Rightarrow> getenv h ''HL_NUMTHREADS''
                            | Some v \<Rightarrow> Some v) of
                        Some threads_str \<Rightarrow> atoi h threads_str
                      | None \<Rightarrow> halide_host_cpu_count h)
                else n0)
      in if n1 > MAX_THREADS then MAX_THREADS else if n1 < 1 then 1 else n1)"

text \<open>Lines 141-174. The threads spawned get the next free thread ids and start at
  line 67 of \<^verbatim>\<open>worker_thread (NULL)\<close>.\<close>

definition lazy_init :: "host \<Rightarrow> state \<Rightarrow> state" where
  "lazy_init h s =
     (if thread_pool_initialized s then s
      else
        (let n = pool_size h (num_threads s);
             first = length (stacks s)
         in s\<lparr>num_threads := n,
              thread_pool_initialized := True,
              work_queue := (work_queue s)
                \<lparr>shutdown := False, wakeup_owners := Initialized,
                 wakeup_a_team := Initialized, wakeup_b_team := Initialized, jobs := None,
                 threads := (\<lambda>i. if int i < n - 1 then first + i else threads (work_queue s) i),
                 a_team_size := n\<rparr>,
              stacks := stacks s @ replicate (nat (n - 1)) [Enter None]\<rparr>))"

text \<open>Lines 176-202: make the job, size the A team, push the job.\<close>

definition make_job :: "ptr \<Rightarrow> halide_task_t \<Rightarrow> int \<Rightarrow> int \<Rightarrow> ptr \<Rightarrow> addr option \<Rightarrow> work" where
  "make_job uc f mn sz cl below =
     \<lparr>next_job = below, f_task = f, user_context = uc, next_idx = mn, max_idx = mn + sz,
      closure = cl, active_workers = 0, exit_status = 0\<rparr>"

definition push_job :: "ptr \<Rightarrow> halide_task_t \<Rightarrow> int \<Rightarrow> int \<Rightarrow> ptr \<Rightarrow> state \<Rightarrow> state" where
  "push_job uc f mn sz cl s =
     (let q = work_queue s;
          job = n_alloc s;
          target = (if jobs q = None \<and> sz < num_threads s then sz else num_threads s)
      in s\<lparr>work_queue := q\<lparr>target_a_team_size := target, jobs := Some job\<rparr>,
           heap := (heap s)(job := make_job uc f mn sz cl (jobs q)),
           n_alloc := Suc job, submitted := submitted s @ [(job, mn, sz)]\<rparr>)"

text \<open>Lines 139-204 as one critical section; the thread is left at line 207 with
  \<open>wake_b_team\<close> as computed at line 198.\<close>

definition default_do_par_for_enter ::
  "host \<Rightarrow> tid \<Rightarrow> ptr \<Rightarrow> halide_task_t \<Rightarrow> int \<Rightarrow> int \<Rightarrow> ptr \<Rightarrow> state \<Rightarrow> state" where
  "default_do_par_for_enter h t uc f mn sz cl s =
     (let s1 = lazy_init h s;
          wake_b_team = (sz > a_team_size (work_queue s1))
      in push_frame t (Pushed (n_alloc s1) wake_b_team) (push_job uc f mn sz cl s1))"

text \<open>Lines 206-215: the broadcasts, then \<^verbatim>\<open>worker_thread (&job)\<close>.\<close>

definition default_do_par_for_wake :: "tid \<Rightarrow> addr \<Rightarrow> bool \<Rightarrow> state \<Rightarrow> state" where
  "default_do_par_for_wake t job wake_b_team s =
     set_top t (Enter (Some job))
       (halide_cond_broadcast
          (\<lambda>c. c = Wakeup_a_team \<or> (wake_b_team \<and> c = Wakeup_b_team)) s)"

text \<open>Lines 217-219: the activation returns the exit status of its job, and its work
  record is gone.\<close>

definition default_do_par_for_return :: "tid \<Rightarrow> addr \<Rightarrow> state \<Rightarrow> state" where
  "default_do_par_for_return t job s =
     pop_frame t (exit_status (heap s job))
       (s\<lparr>returned := (returned s)(job \<mapsto> exit_status (heap s job))\<rparr>)"

subsection \<open>\<^verbatim>\<open>halide_shutdown_thread_pool\<close>\<close>

text \<open>Lines 232-241.\<close>

definition halide_shutdown_thread_pool_enter :: "tid \<Rightarrow> state \<Rightarrow> state" where
  "halide_shutdown_thread_pool_enter t s =
     (if \<not> thread_pool_initialized s then return_to t 0 s
      else push_frame t Join
             (halide_cond_broadcast (\<lambda>c. True)
                (s\<lparr>work_queue := (work_queue s)\<lparr>shutdown := True\<rparr>,
                   shutdowns := Suc (shutdowns s)\<rparr>)))"

text \<open>Lines 244-246: every spawned worker has left its thread function.\<close>

definition joined :: "state \<Rightarrow> bool" where
  "joined s \<longleftrightarrow>
     (\<forall>i < nat (num_threads s - 1).
        threads (work_queue s) i < length (stacks s) \<and>
        stacks s ! threads (work_queue s) i = [])"

text \<open>Lines 249-254: the primitives are destroyed and the latch is cleared.\<close>

definition tidy_up :: "state \<Rightarrow> state" where
  "tidy_up s =
     s\<lparr>work_queue := (work_queue s)
          \<lparr>mutex := Destroyed, wakeup_owners := Destroyed, wakeup_a_team := Destroyed,
           wakeup_b_team := Destroyed\<rparr>,
       thread_pool_initialized := False\<rparr>"

text \<open>Lines 244-255.\<close>

definition halide_shutdown_thread_pool_join :: "tid \<Rightarrow> state \<Rightarrow> stop + state" where
  "halide_shutdown_thread_pool_join t s =
     (if joined s then Inr (pop_frame t 0 (tidy_up s)) else Inl Blocked)"

subsection \<open>The steps of a thread\<close>

definition call :: "host \<Rightarrow> tid \<Rightarrow> prog \<Rightarrow> state \<Rightarrow> stop + state" where
  "call h t p s =
     (case p of
        Return r \<Rightarrow> Inl Exited
      | Par_for uc f mn sz cl k \<Rightarrow> Inr (default_do_par_for_enter h t uc f mn sz cl s)
      | Shutdown_thread_pool k \<Rightarrow> Inr (halide_shutdown_thread_pool_enter t s))"

definition step_frame :: "host \<Rightarrow> tid \<Rightarrow> frame \<Rightarrow> state \<Rightarrow> stop + state" where
  "step_frame h t fr s =
     (case fr of
        User p \<Rightarrow> call h t p s
      | Task owned_job job idx p \<Rightarrow>
          (case p of
             Return result \<Rightarrow>
               if returned s job \<noteq> None then Inl (Dangling_job job)
               else worker_thread_loop t owned_job (after_task t owned_job job idx result s)
           | _ \<Rightarrow> call h t p s)
      | Pushed job wake_b_team \<Rightarrow> Inr (default_do_par_for_wake t job wake_b_team s)
      | Enter owned_job \<Rightarrow> worker_thread_loop t owned_job s
      | Wait c owned_job \<Rightarrow> Inl Blocked
      | Woken c owned_job \<Rightarrow> worker_thread_loop t owned_job (after_wait t c owned_job s)
      | Leave job \<Rightarrow> Inr (default_do_par_for_return t job s)
      | Join \<Rightarrow> halide_shutdown_thread_pool_join t s)"

definition step :: "host \<Rightarrow> tid \<Rightarrow> state \<Rightarrow> stop + state" where
  "step h t s =
     (if t < length (stacks s)
      then (case stacks s ! t of [] \<Rightarrow> Inl Exited | fr # fs \<Rightarrow> step_frame h t fr s)
      else Inl No_thread)"

subsection \<open>Runs\<close>

text \<open>At program start the globals are zero; \<open>n0\<close> is the value of \<^verbatim>\<open>num_threads\<close>
  (zero unless the host has set it), and each client thread is about to run its code.\<close>

definition zero_work :: work where
  "zero_work =
     \<lparr>next_job = None, f_task = (\<lambda>uc idx cl. Return 0), user_context = 0, next_idx = 0,
      max_idx = 0, closure = 0, active_workers = 0, exit_status = 0\<rparr>"

definition initial :: "int \<Rightarrow> prog list \<Rightarrow> state" where
  "initial n0 clients =
     \<lparr>num_threads = n0, thread_pool_initialized = False,
      work_queue = \<lparr>mutex = Zeroed, jobs = None, a_team_size = 0, target_a_team_size = 0,
                    wakeup_owners = Zeroed, wakeup_a_team = Zeroed, wakeup_b_team = Zeroed,
                    threads = (\<lambda>i. 0), shutdown = False\<rparr>,
      heap = (\<lambda>a. zero_work), n_alloc = 0,
      stacks = map (\<lambda>p. [User p]) clients,
      returned = (\<lambda>a. None), submitted = [], invoked = [], completed = [],
      shutdowns = 0\<rparr>"

text \<open>A wait on a condition variable may also end with no broadcast.\<close>

definition spurious_wakeup :: "tid \<Rightarrow> state \<Rightarrow> stop + state" where
  "spurious_wakeup t s =
     (if t < length (stacks s)
      then (case stacks s ! t of
              Wait c owned_job # fs \<Rightarrow> Inr (set_top t (Woken c owned_job) s)
            | _ \<Rightarrow> Inl Blocked)
      else Inl No_thread)"

inductive reachable :: "host \<Rightarrow> int \<Rightarrow> prog list \<Rightarrow> state \<Rightarrow> bool"
  for h :: host and n0 :: int and clients :: "prog list" where
    start: "reachable h n0 clients (initial n0 clients)"
  | step: "reachable h n0 clients s \<Longrightarrow> step h t s = Inr s' \<Longrightarrow> reachable h n0 clients s'"
  | spurious: "reachable h n0 clients s \<Longrightarrow> spurious_wakeup t s = Inr s'
       \<Longrightarrow> reachable h n0 clients s'"

section \<open>Properties of runs\<close>

definition count_frames :: "(frame \<Rightarrow> bool) \<Rightarrow> frame list list \<Rightarrow> int" where
  "count_frames P ss = (\<Sum>fs\<leftarrow>ss. int (length (filter P fs)))"

fun runs :: "addr \<Rightarrow> frame \<Rightarrow> bool" where
  "runs job (Task owned j idx p) = (j = job)"
| "runs job fr = False"

fun owns :: "addr \<Rightarrow> frame \<Rightarrow> bool" where
  "owns job (Task owned j idx p) = (owned = Some job)"
| "owns job (Pushed j wake_b) = (j = job)"
| "owns job (Enter owned) = (owned = Some job)"
| "owns job (Wait c owned) = (owned = Some job)"
| "owns job (Woken c owned) = (owned = Some job)"
| "owns job (Leave j) = (j = job)"
| "owns job fr = False"

definition owners :: "state \<Rightarrow> addr \<Rightarrow> int" where
  "owners s job = count_frames (owns job) (stacks s)"

definition executing :: "state \<Rightarrow> addr \<Rightarrow> int" where
  "executing s job = count_frames (runs job) (stacks s)"

definition jobs_inv :: "state \<Rightarrow> bool" where
  "jobs_inv s \<longleftrightarrow>
     (\<forall>job. active_workers (heap s job) = executing s job) \<and>
     (\<forall>job. n_alloc s \<le> job \<longrightarrow> returned s job = None \<and> executing s job = 0) \<and>
     (\<forall>job. owners s job = (if job < n_alloc s \<and> returned s job = None then 1 else 0)) \<and>
     (\<forall>job. jobs (work_queue s) = Some job \<longrightarrow> job < n_alloc s) \<and>
     (\<forall>job below. next_job (heap s job) = Some below \<longrightarrow> below < n_alloc s) \<and>
     (\<forall>job r. returned s job = Some r \<longrightarrow>
        job < n_alloc s \<and> r = exit_status (heap s job))"

fun run :: "host \<Rightarrow> tid list \<Rightarrow> state \<Rightarrow> stop + state" where
  "run h [] s = Inr s"
| "run h (t # ts) s = (case step h t s of Inl e \<Rightarrow> Inl e | Inr s' \<Rightarrow> run h ts s')"

fun pool_frame :: "frame \<Rightarrow> bool" where
  "pool_frame (Task owned job idx p) = (owned = None)"
| "pool_frame (Enter owned) = (owned = None)"
| "pool_frame (Wait c owned) = (owned = None)"
| "pool_frame (Woken c owned) = (owned = None)"
| "pool_frame fr = False"

fun b_team_frame :: "frame \<Rightarrow> bool" where
  "b_team_frame (Wait c owned) = (c = Wakeup_b_team)"
| "b_team_frame (Woken c owned) = (c = Wakeup_b_team)"
| "b_team_frame fr = False"

definition b_team :: "state \<Rightarrow> int" where
  "b_team s = count_frames b_team_frame (stacks s)"

definition pool_thread :: "frame list \<Rightarrow> bool" where
  "pool_thread fs \<longleftrightarrow> (\<exists>fr \<in> set fs. pool_frame fr)"

definition b_team_ok :: "frame list \<Rightarrow> bool" where
  "b_team_ok fs \<longleftrightarrow> (\<forall>fr \<in> set fs. b_team_frame fr \<longrightarrow> pool_frame fr)"

definition sizes_ok :: "state \<Rightarrow> bool" where
  "sizes_ok s \<longleftrightarrow> (\<forall>(job, mn, sz) \<in> set (submitted s). 0 \<le> sz)"

definition team_inv :: "int \<Rightarrow> state \<Rightarrow> bool" where
  "team_inv n0 s \<longleftrightarrow>
     (\<forall>t < length (stacks s). b_team_ok (stacks s ! t)) \<and>
     (\<forall>t < length (stacks s). pool_thread (stacks s ! t) \<longrightarrow>
        thread_pool_initialized s \<and>
        (\<exists>i. int i < num_threads s - 1 \<and> threads (work_queue s) i = t)) \<and>
     (if 1 \<le> num_threads s \<and> num_threads s \<le> MAX_THREADS \<and>
         a_team_size (work_queue s) + b_team s = num_threads s
      then 0 \<le> a_team_size (work_queue s) \<and>
           0 \<le> target_a_team_size (work_queue s) \<and>
           target_a_team_size (work_queue s) \<le> num_threads s
      else \<not> thread_pool_initialized s \<and> a_team_size (work_queue s) = 0 \<and>
           target_a_team_size (work_queue s) = 0 \<and> num_threads s = n0)"

definition failed_with :: "state \<Rightarrow> addr \<Rightarrow> int \<Rightarrow> bool" where
  "failed_with s job r \<longleftrightarrow> r \<noteq> 0 \<and> (\<exists>idx. (job, idx, r) \<in> set (completed s))"

definition status_inv :: "state \<Rightarrow> bool" where
  "status_inv s \<longleftrightarrow>
     (\<forall>job idx r. (job, idx, r) \<in> set (completed s) \<longrightarrow> job < n_alloc s) \<and>
     (\<forall>job. if \<exists>r. failed_with s job r
            then failed_with s job (exit_status (heap s job))
            else exit_status (heap s job) = 0)"

subsection \<open>One thread running alone\<close>

text \<open>Programs whose submissions all have \<open>size > 0\<close> and that never shut the pool
  down; the task of a job is looked at only at the indices of the job.\<close>

primrec wf_prog :: "prog \<Rightarrow> bool" where
  "wf_prog (Return r) = True"
| "wf_prog (Par_for uc f mn sz cl k) =
     (0 < sz \<and> (\<forall>idx. mn \<le> idx \<and> idx < mn + sz \<longrightarrow> wf_prog (f uc idx cl)) \<and>
      (\<forall>v. wf_prog (k v)))"
| "wf_prog (Shutdown_thread_pool k) = False"

fun prog_of :: "frame \<Rightarrow> prog option" where
  "prog_of (User p) = Some p"
| "prog_of (Task owned job idx p) = Some p"
| "prog_of fr = None"

fun set_prog :: "prog \<Rightarrow> frame \<Rightarrow> frame" where
  "set_prog p' (User p) = User p'"
| "set_prog p' (Task owned job idx p) = Task owned job idx p'"
| "set_prog p' fr = fr"

definition alone :: "host \<Rightarrow> tid \<Rightarrow> nat \<Rightarrow> state \<Rightarrow> stop + state" where
  "alone h t n s = run h (replicate n t) s"

definition fresh :: "state \<Rightarrow> bool" where
  "fresh s \<longleftrightarrow> (\<forall>a \<ge> n_alloc s. returned s a = None)"

definition kept :: "state \<Rightarrow> state \<Rightarrow> bool" where
  "kept s s' \<longleftrightarrow>
     length (stacks s) \<le> length (stacks s') \<and> n_alloc s \<le> n_alloc s' \<and>
     (\<forall>a < n_alloc s. heap s' a = heap s a \<and> returned s' a = returned s a) \<and>
     (thread_pool_initialized s \<longrightarrow>
        thread_pool_initialized s' \<and> jobs (work_queue s') = jobs (work_queue s))"

definition in_loop ::
  "tid \<Rightarrow> addr \<Rightarrow> frame list \<Rightarrow> ptr \<Rightarrow> halide_task_t \<Rightarrow> ptr \<Rightarrow> int \<Rightarrow> addr option \<Rightarrow> int \<Rightarrow>
   state \<Rightarrow> bool" where
  "in_loop t J rest uc f cl mx below i u \<longleftrightarrow>
     t < length (stacks u) \<and> stacks u ! t = Enter (Some J) # rest \<and>
     thread_pool_initialized u \<and> J < n_alloc u \<and> returned u J = None \<and> fresh u \<and>
     next_idx (heap u J) = i \<and> max_idx (heap u J) = mx \<and> active_workers (heap u J) = 0 \<and>
     f_task (heap u J) = f \<and> user_context (heap u J) = uc \<and> closure (heap u J) = cl \<and>
     next_job (heap u J) = below \<and> i \<le> mx \<and>
     jobs (work_queue u) = (if i < mx then Some J else below)"

definition left_loop :: "tid \<Rightarrow> addr \<Rightarrow> frame list \<Rightarrow> addr option \<Rightarrow> state \<Rightarrow> state \<Rightarrow> bool" where
  "left_loop t J rest below u u' \<longleftrightarrow>
     stacks u' ! t = resume (exit_status (heap u' J)) rest \<and>
     length (stacks u) \<le> length (stacks u') \<and> n_alloc u \<le> n_alloc u' \<and>
     (\<forall>a < n_alloc u. a \<noteq> J \<longrightarrow> heap u' a = heap u a \<and> returned u' a = returned u a) \<and>
     thread_pool_initialized u' \<and> jobs (work_queue u') = below \<and> fresh u' \<and>
     returned u' J = Some (exit_status (heap u' J))"

definition finishes :: "host \<Rightarrow> tid \<Rightarrow> prog \<Rightarrow> bool" where
  "finishes h t p \<longleftrightarrow>
     (\<forall>s fr rest. t < length (stacks s) \<and> fresh s \<and> stacks s ! t = fr # rest \<and>
        prog_of fr = Some p \<longrightarrow>
        (\<exists>n s' r. alone h t n s = Inr s' \<and> stacks s' ! t = set_prog (Return r) fr # rest \<and>
           kept s s' \<and> fresh s' \<and> (p = Return r \<or> thread_pool_initialized s')))"

subsection \<open>The job stack and the order of claims\<close>

text \<open>The jobs linked from \<^verbatim>\<open>work_queue.jobs\<close> through \<^verbatim>\<open>next_job\<close>. A job is pushed on top
  of older ones, so the links lead to smaller addresses; the walk stops where one does not.\<close>

function chain :: "(addr \<Rightarrow> work) \<Rightarrow> addr \<Rightarrow> addr list" where
  "chain hp job =
     job # (case next_job (hp job) of
              None \<Rightarrow> []
            | Some below \<Rightarrow> if below < job then chain hp below else [])"
  by pat_completeness auto

termination
  by (relation "measure snd") auto

declare chain.simps [simp del]

definition job_stack :: "state \<Rightarrow> addr list" where
  "job_stack s = (case jobs (work_queue s) of None \<Rightarrow> [] | Some job \<Rightarrow> chain (heap s) job)"

definition sizes_pos :: "state \<Rightarrow> bool" where
  "sizes_pos s \<longleftrightarrow> (\<forall>(job, mn, sz) \<in> set (submitted s). 0 < sz)"

definition claimed :: "state \<Rightarrow> addr \<Rightarrow> int list" where
  "claimed s job = map snd (filter (\<lambda>(j, idx). j = job) (invoked s))"

definition order_inv :: "state \<Rightarrow> bool" where
  "order_inv s \<longleftrightarrow>
     (\<forall>(job, mn, sz) \<in> set (submitted s).
        job < n_alloc s \<and> max_idx (heap s job) = mn + sz \<and> mn \<le> next_idx (heap s job) \<and>
        claimed s job = [mn .. next_idx (heap s job) - 1]) \<and>
     (\<forall>(job, idx) \<in> set (invoked s). job < n_alloc s) \<and>
     (\<forall>job. next_idx (heap s job) \<le> max_idx (heap s job)) \<and>
     (\<forall>job \<in> set (job_stack s). next_idx (heap s job) < max_idx (heap s job)) \<and>
     (\<forall>job below. next_job (heap s job) = Some below \<longrightarrow> below < job)"

fun leaves :: "addr \<Rightarrow> frame \<Rightarrow> bool" where
  "leaves job (Leave j) = (j = job)"
| "leaves job fr = False"

definition leaving :: "state \<Rightarrow> addr \<Rightarrow> int" where
  "leaving s job = count_frames (leaves job) (stacks s)"

definition idle_inv :: "state \<Rightarrow> bool" where
  "idle_inv s \<longleftrightarrow>
     (\<forall>job. 0 < leaving s job \<or> returned s job \<noteq> None \<longrightarrow> \<not> work_running (heap s job))"

fun joining :: "frame \<Rightarrow> bool" where
  "joining Join = True"
| "joining fr = False"

definition link_inv :: "state \<Rightarrow> bool" where
  "link_inv s \<longleftrightarrow>
     (shutdowns s = 0 \<longrightarrow>
        count_frames joining (stacks s) = 0 \<and>
        (0 < n_alloc s \<longrightarrow> thread_pool_initialized s) \<and>
        (\<forall>job < n_alloc s.
           next_idx (heap s job) < max_idx (heap s job) \<longrightarrow> job \<in> set (job_stack s)))"

fun runs_at :: "addr \<Rightarrow> int \<Rightarrow> frame \<Rightarrow> bool" where
  "runs_at job idx (Task owned j i p) = (j = job \<and> i = idx)"
| "runs_at job idx fr = False"

definition started :: "state \<Rightarrow> addr \<Rightarrow> int \<Rightarrow> nat" where
  "started s job idx = length (filter (\<lambda>e. e = (job, idx)) (invoked s))"

definition finished :: "state \<Rightarrow> addr \<Rightarrow> int \<Rightarrow> nat" where
  "finished s job idx = length (filter (\<lambda>(j, i, x). j = job \<and> i = idx) (completed s))"

definition flow_inv :: "state \<Rightarrow> bool" where
  "flow_inv s \<longleftrightarrow>
     (\<forall>job idx. int (started s job idx) =
        int (finished s job idx) + count_frames (runs_at job idx) (stacks s))"
subsection \<open>The specification's words\<close>

text \<open>Team sizing as the specification states it: shrink to \<open>size\<close> when the stack is
  empty and the job is smaller than the pool, else the whole pool.\<close>

definition spec_target_a_team_size :: "addr option \<Rightarrow> int \<Rightarrow> int \<Rightarrow> int" where
  "spec_target_a_team_size stack sz n = (if stack = None \<and> sz < n then sz else n)"

text \<open>The pool size the specification asks for: the primary variable, else the legacy
  alias, else the host's CPU count; clamped into \<open>[1, MAX_THREADS]\<close>.\<close>

definition spec_requested_threads :: "host \<Rightarrow> int" where
  "spec_requested_threads h =
     (case getenv h ''HL_NUM_THREADS'' of
        Some v \<Rightarrow> atoi h v
      | None \<Rightarrow> (case getenv h ''HL_NUMTHREADS'' of
                   Some v \<Rightarrow> atoi h v
                 | None \<Rightarrow> halide_host_cpu_count h))"

definition spec_clamp :: "int \<Rightarrow> int" where
  "spec_clamp n = max 1 (min MAX_THREADS n)"

subsection \<open>Example runs\<close>

text \<open>A host with \<^verbatim>\<open>HL_NUM_THREADS=2\<close>, a task that succeeds and one that fails with
  status 7.\<close>

definition host2 :: host where
  "host2 = \<lparr>getenv = (\<lambda>n. if n = ''HL_NUM_THREADS'' then Some ''2'' else None),
            atoi = (\<lambda>v. if v = ''2'' then 2 else 0), halide_host_cpu_count = 4\<rparr>"

definition ok_task :: halide_task_t where
  "ok_task = (\<lambda>uc idx cl. Return 0)"

definition bad_task :: halide_task_t where
  "bad_task = (\<lambda>uc idx cl. Return 7)"

text \<open>\<^verbatim>\<open>par_for (5, 1)\<close> of the failing task on a pool of one thread, run to its return.\<close>

definition failed_state :: state where
  "failed_state = projr (run host2 [0, 0, 0, 0, 0] (initial 1 [Par_for 0 bad_task 5 1 0 Return]))"

text \<open>The same run one step earlier: the submitter has left the loop and stands before
  the return of line 219.\<close>

definition leave_state :: state where
  "leave_state = projr (run host2 [0, 0, 0, 0] (initial 1 [Par_for 0 bad_task 5 1 0 Return]))"

text \<open>\<^verbatim>\<open>par_for (0, 1)\<close> on a pool of two: the submitter claims the only task, the spawned
  worker finds the stack empty and the A team too large, and joins the B team.\<close>

definition b_team_state :: state where
  "b_team_state = projr (run host2 [0, 0, 0, 1] (initial 0 [Par_for 0 ok_task 0 1 0 Return]))"

text \<open>\<^verbatim>\<open>par_for (0, 0)\<close> on a pool of two, after the submitter has pushed the job.\<close>

definition empty_job_state :: state where
  "empty_job_state = projr (run host2 [0] (initial 0 [Par_for 0 ok_task 0 0 0 Return]))"

text \<open>\<^verbatim>\<open>par_for (0, 1)\<close> on a pool of two, after the submitter has pushed the job.\<close>

definition pushed_state :: state where
  "pushed_state = projr (run host2 [0] (initial 0 [Par_for 0 ok_task 0 1 0 Return]))"

text \<open>\<^verbatim>\<open>par_for (0, 0)\<close> after the submitter has returned; the job is still on the stack.\<close>

definition empty_job_returned_state :: state where
  "empty_job_returned_state =
     projr (run host2 [0, 0, 0, 0] (initial 0 [Par_for 0 ok_task 0 0 0 Return]))"

text \<open>An outer \<^verbatim>\<open>par_for (0, 2)\<close> whose task calls \<^verbatim>\<open>par_for (0, 0)\<close>.\<close>

definition nested_empty_prog :: prog where
  "nested_empty_prog = Par_for 0 (\<lambda>uc idx cl. Par_for 0 ok_task 0 0 0 Return) 0 2 0 Return"

text \<open>\<^verbatim>\<open>par_for (0, 2)\<close>, then \<^verbatim>\<open>halide_shutdown_thread_pool\<close>, then \<^verbatim>\<open>par_for (5, 1)\<close>, on
  a pool of two; the schedule lets the spawned worker take the second task of the first
  job and leave its thread function before the client joins it.\<close>

definition restart_prog :: prog where
  "restart_prog =
     Par_for 0 ok_task 0 2 0 (\<lambda>r. Shutdown_thread_pool (Par_for 0 ok_task 5 1 0 Return))"

definition restart_schedule :: "tid list" where
  "restart_schedule = [0, 0, 0, 1, 0, 1, 0, 0, 0, 1, 0, 0, 0, 0, 0, 0]"

definition restart_state :: state where
  "restart_state = projr (run host2 restart_schedule (initial 0 [restart_prog]))"

text \<open>The states of that run before the call of \<^verbatim>\<open>halide_shutdown_thread_pool\<close>, after
  its critical section, when the spawned worker has left, and after the shutdown, before
  the second submission.\<close>

definition pre_shutdown_state :: state where
  "pre_shutdown_state = projr (run host2 (take 8 restart_schedule) (initial 0 [restart_prog]))"


definition joining_state :: state where
  "joining_state = projr (run host2 (take 10 restart_schedule) (initial 0 [restart_prog]))"


text \<open>An outer \<^verbatim>\<open>par_for (0, 2)\<close> whose task calls \<^verbatim>\<open>par_for (0, 2)\<close>, on a pool of two: the
  submitter and the spawned worker have each claimed one outer iteration.\<close>

definition inner_prog :: prog where
  "inner_prog = Par_for 0 ok_task 0 2 0 Return"

definition nested_prog :: prog where
  "nested_prog = Par_for 0 (\<lambda>uc idx cl. inner_prog) 0 2 0 Return"

definition engaged_state :: state where
  "engaged_state = projr (run host2 [0, 0, 0, 1] (initial 0 [nested_prog]))"

section \<open>Invariants of the scheduler\<close>

lemma tidy_up_simps [simp]:
  "stacks (tidy_up s) = stacks s" "heap (tidy_up s) = heap s" "n_alloc (tidy_up s) = n_alloc s"
  "returned (tidy_up s) = returned s" "submitted (tidy_up s) = submitted s"
  "invoked (tidy_up s) = invoked s" "completed (tidy_up s) = completed s"
  "shutdowns (tidy_up s) = shutdowns s" "num_threads (tidy_up s) = num_threads s"
  "jobs (work_queue (tidy_up s)) = jobs (work_queue s)"
  "a_team_size (work_queue (tidy_up s)) = a_team_size (work_queue s)"
  "target_a_team_size (work_queue (tidy_up s)) = target_a_team_size (work_queue s)"
  "threads (work_queue (tidy_up s)) = threads (work_queue s)"
  "shutdown (work_queue (tidy_up s)) = shutdown (work_queue s)"
  "thread_pool_initialized (tidy_up s) = False"
  by (simp_all add: tidy_up_def)

lemma count_frames_nonneg [simp]: "0 \<le> count_frames P ss"
  by (auto simp add: count_frames_def intro!: sum_list_nonneg)

lemma count_frames_Nil [simp]: "count_frames P [] = 0"
  by (simp add: count_frames_def)

lemma count_frames_Cons [simp]:
  "count_frames P (fs # ss) = int (length (filter P fs)) + count_frames P ss"
  by (simp add: count_frames_def)

lemma count_frames_update [simp]:
  "t < length ss \<Longrightarrow>
     count_frames P (ss[t := fs]) =
       count_frames P ss + int (length (filter P fs)) - int (length (filter P (ss ! t)))"
proof (induction ss arbitrary: t)
  case Nil
  then show ?case by simp
next
  case (Cons a ss)
  then show ?case by (cases t) simp_all
qed

lemma count_frames_append [simp]:
  "count_frames P (ss @ ss') = count_frames P ss + count_frames P ss'"
  by (simp add: count_frames_def)

lemma count_frames_replicate [simp]:
  "count_frames P (replicate n [fr]) = (if P fr then int n else 0)"
  by (induction n) simp_all

lemma count_frames_map_user [simp]:
  "count_frames P (map (\<lambda>p. [User p]) ps) = int (length (filter (\<lambda>p. P (User p)) ps))"
  by (induction ps) simp_all

lemma count_frames_zero_iff:
  "count_frames P ss = 0 \<longleftrightarrow> (\<forall>fs \<in> set ss. \<forall>fr \<in> set fs. \<not> P fr)"
proof (induction ss)
  case Nil
  then show ?case by simp
next
  case (Cons a ss)
  have "0 \<le> count_frames P ss" by simp
  then have "int (length (filter P a)) + count_frames P ss = 0 \<longleftrightarrow>
      length (filter P a) = 0 \<and> count_frames P ss = 0"
    by linarith
  with Cons show ?case by (simp add: filter_empty_conv)
qed

lemma count_frames_pos:
  assumes "t < length ss" and "fr \<in> set (ss ! t)" and "P fr"
  shows "0 < count_frames P ss"
proof -
  have "count_frames P ss \<noteq> 0"
    using assms by (auto simp add: count_frames_zero_iff)
  moreover have "0 \<le> count_frames P ss" by simp
  ultimately show ?thesis by linarith
qed

lemma filter_wake:
  assumes "\<And>c owned. P (Woken c owned) = P (Wait c owned)"
  shows "length (filter P (wake cs fs)) = length (filter P fs)"
  using assms by (cases "(cs, fs)" rule: wake.cases) simp_all

lemma count_frames_wake:
  assumes "\<And>c owned. P (Woken c owned) = P (Wait c owned)"
  shows "count_frames P (map (wake cs) ss) = count_frames P ss"
  using assms by (induction ss) (simp_all add: filter_wake)

lemma runs_resume [simp]: "length (filter (runs job) (resume v fs)) = length (filter (runs job) fs)"
  by (cases "(v, fs)" rule: resume.cases) simp_all

lemma runs_wake [simp]: "count_frames (runs job) (map (wake cs) ss) = count_frames (runs job) ss"
  by (rule count_frames_wake) simp

lemma owns_resume [simp]: "length (filter (owns job) (resume v fs)) = length (filter (owns job) fs)"
  by (cases "(v, fs)" rule: resume.cases) simp_all

lemma owns_wake [simp]: "count_frames (owns job) (map (wake cs) ss) = count_frames (owns job) ss"
  by (rule count_frames_wake) simp

lemma jobs_invI:
  assumes "\<And>job. active_workers (heap s job) = executing s job"
    and "\<And>job. n_alloc s \<le> job \<Longrightarrow> returned s job = None"
    and "\<And>job. n_alloc s \<le> job \<Longrightarrow> executing s job = 0"
    and "\<And>job. owners s job = (if job < n_alloc s \<and> returned s job = None then 1 else 0)"
    and "\<And>job. jobs (work_queue s) = Some job \<Longrightarrow> job < n_alloc s"
    and "\<And>job below. next_job (heap s job) = Some below \<Longrightarrow> below < n_alloc s"
    and "\<And>job r. returned s job = Some r \<Longrightarrow> job < n_alloc s"
    and "\<And>job r. returned s job = Some r \<Longrightarrow> r = exit_status (heap s job)"
  shows "jobs_inv s"
  using assms unfolding jobs_inv_def by blast

lemma jobs_invD:
  assumes "jobs_inv s"
  shows "active_workers (heap s job) = executing s job"
    and "n_alloc s \<le> job \<Longrightarrow> returned s job = None"
    and "n_alloc s \<le> job \<Longrightarrow> executing s job = 0"
    and "owners s job = (if job < n_alloc s \<and> returned s job = None then 1 else 0)"
    and "jobs (work_queue s) = Some job \<Longrightarrow> job < n_alloc s"
    and "next_job (heap s job) = Some below \<Longrightarrow> below < n_alloc s"
    and "returned s job = Some r \<Longrightarrow> job < n_alloc s"
    and "returned s job = Some r \<Longrightarrow> r = exit_status (heap s job)"
  using assms unfolding jobs_inv_def by blast+

lemma jobs_inv_initial: "jobs_inv (initial n0 clients)"
  by (simp add: jobs_inv_def initial_def zero_work_def executing_def owners_def)

lemma task_frame_live:
  assumes "jobs_inv s" and "t < length (stacks s)" and "Task owned job idx p \<in> set (stacks s ! t)"
  shows "job < n_alloc s"
proof -
  have pos: "0 < executing s job"
    unfolding executing_def using assms(2,3) by (rule count_frames_pos) simp
  with jobs_invD(3)[OF assms(1), of job] show "job < n_alloc s" by (cases "job < n_alloc s") auto
qed

lemma owned_frame_live:
  assumes "jobs_inv s" and "t < length (stacks s)" and "fr \<in> set (stacks s ! t)" and "owns job fr"
  shows "job < n_alloc s \<and> returned s job = None"
proof -
  have "0 < owners s job"
    unfolding owners_def using assms(2,3,4) by (rule count_frames_pos)
  with jobs_invD(4)[OF assms(1), of job] show ?thesis by (simp split: if_splits)
qed

lemma after_task_effect:
  assumes "t < length (stacks s)" and "stacks s ! t = Task owned job idx p # rest"
  shows "executing (after_task t owned job idx r s) j = executing s j - (if j = job then 1 else 0)"
    and "owners (after_task t owned job idx r s) j = owners s j"
    and "n_alloc (after_task t owned job idx r s) = n_alloc s"
    and "returned (after_task t owned job idx r s) = returned s"
    and "work_queue (after_task t owned job idx r s) = work_queue s"
    and "j \<noteq> job \<Longrightarrow> heap (after_task t owned job idx r s) j = heap s j"
    and "active_workers (heap (after_task t owned job idx r s) job) = active_workers (heap s job) - 1"
    and "next_job (heap (after_task t owned job idx r s) j) = next_job (heap s j)"
    and "next_idx (heap (after_task t owned job idx r s) j) = next_idx (heap s j)"
    and "max_idx (heap (after_task t owned job idx r s) j) = max_idx (heap s j)"
    and "length (stacks (after_task t owned job idx r s)) = length (stacks s)"
    and "stacks (after_task t owned job idx r s) ! t = Enter owned # rest"
  using assms
  by (simp_all add: after_task_def Let_def set_top_def halide_cond_broadcast_def
      executing_def owners_def)

lemma jobs_inv_after_task:
  assumes inv: "jobs_inv s" and t: "t < length (stacks s)"
    and top: "stacks s ! t = Task owned job idx p # rest"
    and alive: "returned s job = None"
  shows "jobs_inv (after_task t owned job idx r s)"
proof -
  note eff = after_task_effect[OF t top]
  have live: "job < n_alloc s" "returned s job = None"
    using task_frame_live[OF inv t, of owned job idx p] top alive by simp_all
  show ?thesis
  proof (rule jobs_invI)
    fix j show "active_workers (heap (after_task t owned job idx r s) j)
        = executing (after_task t owned job idx r s) j"
      using jobs_invD(1)[OF inv, of j] by (cases "j = job") (simp_all add: eff)
  next
    fix j assume "n_alloc (after_task t owned job idx r s) \<le> j"
    then show "returned (after_task t owned job idx r s) j = None"
      using jobs_invD(2)[OF inv, of j] by (simp add: eff)
  next
    fix j assume "n_alloc (after_task t owned job idx r s) \<le> j"
    then show "executing (after_task t owned job idx r s) j = 0"
      using jobs_invD(3)[OF inv, of j] live by (auto simp add: eff)
  next
    fix j show "owners (after_task t owned job idx r s) j =
       (if j < n_alloc (after_task t owned job idx r s) \<and>
           returned (after_task t owned job idx r s) j = None then 1 else 0)"
      using jobs_invD(4)[OF inv, of j] by (simp add: eff)
  next
    fix j assume "jobs (work_queue (after_task t owned job idx r s)) = Some j"
    then show "j < n_alloc (after_task t owned job idx r s)"
      using jobs_invD(5)[OF inv, of j] by (simp add: eff)
  next
    fix j below assume "next_job (heap (after_task t owned job idx r s) j) = Some below"
    then show "below < n_alloc (after_task t owned job idx r s)"
      using jobs_invD(6)[OF inv, of j below] by (simp add: eff)
  next
    fix j r' assume "returned (after_task t owned job idx r s) j = Some r'"
    then have r: "returned s j = Some r'" by (simp add: eff)
    with jobs_invD(7)[OF inv r] show "j < n_alloc (after_task t owned job idx r s)"
      by (simp add: eff)
  next
    fix j r' assume "returned (after_task t owned job idx r s) j = Some r'"
    then have r: "returned s j = Some r'" by (simp add: eff)
    with live have "j \<noteq> job" by auto
    with r jobs_invD(8)[OF inv r] show "r' = exit_status (heap (after_task t owned job idx r s) j)"
      by (simp add: eff)
  qed
qed

lemma jobs_inv_cong:
  assumes "jobs_inv s"
    and "\<And>j. executing s' j = executing s j"
    and "\<And>j. owners s' j = owners s j"
    and "heap s' = heap s" and "n_alloc s' = n_alloc s" and "returned s' = returned s"
    and "jobs (work_queue s') = jobs (work_queue s)"
  shows "jobs_inv s'"
  using assms(1) unfolding jobs_inv_def assms(2-7) .

lemma jobs_inv_set_top:
  assumes "jobs_inv s" and "t < length (stacks s)" and "stacks s ! t = fr # rest"
    and "\<And>j. runs j fr' = runs j fr" and "\<And>j. owns j fr' = owns j fr"
  shows "jobs_inv (set_top t fr' s)"
  using assms(1)
  by (rule jobs_inv_cong) (simp_all add: set_top_def executing_def owners_def assms(2-5))

lemma jobs_inv_queue_update:
  assumes "jobs_inv s" and "jobs q = jobs (work_queue s)"
  shows "jobs_inv (s\<lparr>work_queue := q\<rparr>)"
  using assms(1)
  by (rule jobs_inv_cong) (simp_all add: executing_def owners_def assms(2))

lemma jobs_inv_broadcast:
  assumes "jobs_inv s"
  shows "jobs_inv (halide_cond_broadcast cs s)"
  using assms
  by (rule jobs_inv_cong) (simp_all add: halide_cond_broadcast_def executing_def owners_def)

lemma stacks_broadcast [simp]:
  "length (stacks (halide_cond_broadcast cs s)) = length (stacks s)"
  "t < length (stacks s) \<Longrightarrow> stacks (halide_cond_broadcast cs s) ! t = wake cs (stacks s ! t)"
  by (simp_all add: halide_cond_broadcast_def)

lemma jobs_inv_after_wait:
  assumes "jobs_inv s" and "t < length (stacks s)" and "stacks s ! t = Woken c owned # rest"
  shows "jobs_inv (after_wait t c owned s)"
  unfolding after_wait_def
  by (rule jobs_inv_set_top[where fr="Woken c owned" and rest=rest])
     (use assms in \<open>simp_all add: jobs_inv_queue_update\<close>)

lemma jobs_inv_wake:
  assumes "jobs_inv s" and "t < length (stacks s)" and "stacks s ! t = Pushed job wake_b # rest"
  shows "jobs_inv (default_do_par_for_wake t job wake_b s)"
  unfolding default_do_par_for_wake_def
  by (rule jobs_inv_set_top[where fr="Pushed job wake_b" and rest=rest])
     (use assms in \<open>simp_all add: jobs_inv_broadcast\<close>)

lemma jobs_inv_spurious:
  assumes "jobs_inv s" and "spurious_wakeup t s = Inr s'"
  shows "jobs_inv s'"
proof -
  from assms(2) obtain c owned rest where t: "t < length (stacks s)"
    and top: "stacks s ! t = Wait c owned # rest" and s': "s' = set_top t (Woken c owned) s"
    by (auto simp add: spurious_wakeup_def split: if_splits list.splits frame.splits)
  show ?thesis unfolding s'
    by (rule jobs_inv_set_top[OF assms(1) t top]) simp_all
qed

lemma jobs_inv_shutdown_enter:
  assumes "jobs_inv s" and "t < length (stacks s)"
  shows "jobs_inv (halide_shutdown_thread_pool_enter t s)"
  using assms(1)
  by (rule jobs_inv_cong)
     (simp_all add: halide_shutdown_thread_pool_enter_def push_frame_def return_to_def
       halide_cond_broadcast_def executing_def owners_def assms(2))

lemma jobs_inv_join:
  assumes "jobs_inv s" and "t < length (stacks s)" and "stacks s ! t = Join # rest"
    and "halide_shutdown_thread_pool_join t s = Inr s'"
  shows "jobs_inv s'"
proof -
  from assms(4) have s': "s' = pop_frame t 0 (tidy_up s)"
    by (simp add: halide_shutdown_thread_pool_join_def split: if_splits)
  show ?thesis unfolding s' using assms(1)
    by (rule jobs_inv_cong) (simp_all add: pop_frame_def executing_def owners_def assms(2,3))
qed

lemma claim_effect:
  assumes "t < length (stacks s)" and "stacks s ! t = Enter owned # rest"
  shows "executing (claim t owned job s) j = executing s j + (if j = job then 1 else 0)"
    and "owners (claim t owned job s) j = owners s j"
    and "n_alloc (claim t owned job s) = n_alloc s"
    and "returned (claim t owned job s) = returned s"
    and "jobs (work_queue (claim t owned job s)) =
           (if next_idx (heap s job) + 1 = max_idx (heap s job)
            then next_job (heap s job) else jobs (work_queue s))"
    and "j \<noteq> job \<Longrightarrow> heap (claim t owned job s) j = heap s j"
    and "active_workers (heap (claim t owned job s) job) = active_workers (heap s job) + 1"
    and "next_job (heap (claim t owned job s) j) = next_job (heap s j)"
    and "next_idx (heap (claim t owned job s) job) = next_idx (heap s job) + 1"
    and "max_idx (heap (claim t owned job s) j) = max_idx (heap s j)"
    and "exit_status (heap (claim t owned job s) j) = exit_status (heap s j)"
    and "length (stacks (claim t owned job s)) = length (stacks s)"
  using assms
  by (simp_all add: claim_def Let_def set_top_def executing_def owners_def)

lemma jobs_inv_claim:
  assumes inv: "jobs_inv s" and t: "t < length (stacks s)"
    and top: "stacks s ! t = Enter owned # rest"
    and job: "jobs (work_queue s) = Some job" and live: "returned s job = None"
  shows "jobs_inv (claim t owned job s)"
proof -
  note eff = claim_effect[OF t top]
  have alloc: "job < n_alloc s"
    using jobs_invD(5)[OF inv job] .
  show ?thesis
  proof (rule jobs_invI, goal_cases)
    case (1 j)
    show ?case using jobs_invD(1)[OF inv, of j] by (cases "j = job") (simp_all add: eff)
  next
    case (2 j)
    then show ?case using jobs_invD(2)[OF inv, of j] by (simp add: eff)
  next
    case (3 j)
    then show ?case using jobs_invD(3)[OF inv, of j] alloc by (auto simp add: eff)
  next
    case (4 j)
    show ?case using jobs_invD(4)[OF inv, of j] by (simp add: eff)
  next
    case (5 j)
    then show ?case
      using jobs_invD(5)[OF inv, of j] jobs_invD(6)[OF inv, of job j]
      by (simp add: eff split: if_splits)
  next
    case (6 j below)
    then show ?case using jobs_invD(6)[OF inv, of j below] by (simp add: eff)
  next
    case (7 j r)
    then have r: "returned s j = Some r" by (simp add: eff)
    with jobs_invD(7)[OF inv r] show ?case by (simp add: eff)
  next
    case (8 j r)
    then have r: "returned s j = Some r" by (simp add: eff)
    with jobs_invD(8)[OF inv r] show ?case by (simp add: eff)
  qed
qed

lemma jobs_inv_return:
  assumes inv: "jobs_inv s" and t: "t < length (stacks s)"
    and top: "stacks s ! t = Enter owned # rest"
  shows "jobs_inv (worker_thread_return t owned s)"
  using inv
  by (rule jobs_inv_cong)
    (auto simp add: worker_thread_return_def set_top_def executing_def owners_def t top
      split: option.splits)

lemma par_for_return_effect:
  assumes "t < length (stacks s)" and "stacks s ! t = Leave job # rest"
  shows "executing (default_do_par_for_return t job s) j = executing s j"
    and "owners (default_do_par_for_return t job s) j = owners s j - (if j = job then 1 else 0)"
    and "n_alloc (default_do_par_for_return t job s) = n_alloc s"
    and "returned (default_do_par_for_return t job s) j =
           (if j = job then Some (exit_status (heap s j)) else returned s j)"
    and "work_queue (default_do_par_for_return t job s) = work_queue s"
    and "heap (default_do_par_for_return t job s) = heap s"
    and "length (stacks (default_do_par_for_return t job s)) = length (stacks s)"
  using assms
  by (auto simp add: default_do_par_for_return_def pop_frame_def executing_def owners_def)

lemma jobs_inv_par_for_return:
  assumes inv: "jobs_inv s" and t: "t < length (stacks s)"
    and top: "stacks s ! t = Leave job # rest"
  shows "jobs_inv (default_do_par_for_return t job s)"
proof -
  note eff = par_for_return_effect[OF t top]
  have own: "job < n_alloc s \<and> returned s job = None"
    using owned_frame_live[OF inv t, of "Leave job" job] top by simp
  show ?thesis
  proof (rule jobs_invI, goal_cases)
    case (1 j)
    show ?case using jobs_invD(1)[OF inv, of j] by (simp add: eff)
  next
    case (2 j)
    then show ?case using jobs_invD(2)[OF inv, of j] own by (auto simp add: eff)
  next
    case (3 j)
    then show ?case using jobs_invD(3)[OF inv, of j] by (simp add: eff)
  next
    case (4 j)
    show ?case using jobs_invD(4)[OF inv, of j] own by (auto simp add: eff)
  next
    case (5 j)
    then show ?case using jobs_invD(5)[OF inv, of j] by (simp add: eff)
  next
    case (6 j below)
    then show ?case using jobs_invD(6)[OF inv, of j below] by (simp add: eff)
  next
    case (7 j r)
    then show ?case using jobs_invD(7)[OF inv, of j r] own
      by (auto simp add: eff split: if_splits)
  next
    case (8 j r)
    then show ?case using jobs_invD(8)[OF inv, of j r]
      by (auto simp add: eff split: if_splits)
  qed
qed

lemma jobs_inv_loop:
  assumes inv: "jobs_inv s" and t: "t < length (stacks s)"
    and top: "stacks s ! t = Enter owned # rest"
    and step: "worker_thread_loop t owned s = Inr s'"
  shows "jobs_inv s'"
proof (cases "case owned of Some oj \<Rightarrow> work_running (heap s oj)
                          | None \<Rightarrow> queue_running (work_queue s)")
  case False
  with step have s': "s' = worker_thread_return t owned s"
    by (simp add: worker_thread_loop_def)
  show ?thesis unfolding s'
    by (rule jobs_inv_return[OF inv t top])
next
  case run: True
  show ?thesis
  proof (cases "jobs (work_queue s)")
    case None
    with run step consider c where "s' = set_top t (Wait c owned) s"
      | c q where "s' = set_top t (Wait c owned) (s\<lparr>work_queue := q\<rparr>)"
          and "jobs q = jobs (work_queue s)"
      by (auto simp add: worker_thread_loop_def split: if_splits)
    then show ?thesis
    proof cases
      case 1
      show ?thesis unfolding 1
        by (rule jobs_inv_set_top[OF inv t top]) simp_all
    next
      case 2
      show ?thesis unfolding 2(1)
        by (rule jobs_inv_set_top[where fr="Enter owned" and rest=rest])
          (use inv t top 2(2) in \<open>simp_all add: jobs_inv_queue_update\<close>)
    qed
  next
    case (Some job)
    with run step have live: "returned s job = None" and s': "s' = claim t owned job s"
      by (auto simp add: worker_thread_loop_def split: if_splits)
    show ?thesis unfolding s' by (rule jobs_inv_claim[OF inv t top Some live])
  qed
qed

lemma lazy_init_effect:
  shows "executing (lazy_init h s) j = executing s j"
    and "owners (lazy_init h s) j = owners s j"
    and "n_alloc (lazy_init h s) = n_alloc s"
    and "returned (lazy_init h s) = returned s"
    and "heap (lazy_init h s) = heap s"
    and "jobs (work_queue (lazy_init h s)) =
           (if thread_pool_initialized s then jobs (work_queue s) else None)"
    and "length (stacks s) \<le> length (stacks (lazy_init h s))"
    and "t < length (stacks s) \<Longrightarrow> stacks (lazy_init h s) ! t = stacks s ! t"
  by (simp_all add: lazy_init_def Let_def executing_def owners_def nth_append)

lemma jobs_inv_lazy_init:
  assumes inv: "jobs_inv s"
  shows "jobs_inv (lazy_init h s)"
proof (rule jobs_invI, goal_cases)
  case (5 j)
  then show ?case using jobs_invD(5)[OF inv, of j] by (simp add: lazy_init_effect split: if_splits)
qed (use jobs_invD[OF inv] in \<open>simp_all add: lazy_init_effect\<close>)

lemma push_job_effect:
  shows "executing (push_job uc f mn sz cl s) j = executing s j"
    and "owners (push_job uc f mn sz cl s) j = owners s j"
    and "n_alloc (push_job uc f mn sz cl s) = Suc (n_alloc s)"
    and "returned (push_job uc f mn sz cl s) = returned s"
    and "j \<noteq> n_alloc s \<Longrightarrow> heap (push_job uc f mn sz cl s) j = heap s j"
    and "heap (push_job uc f mn sz cl s) (n_alloc s) = make_job uc f mn sz cl (jobs (work_queue s))"
    and "jobs (work_queue (push_job uc f mn sz cl s)) = Some (n_alloc s)"
    and "stacks (push_job uc f mn sz cl s) = stacks s"
  by (simp_all add: push_job_def Let_def executing_def owners_def)

lemma jobs_inv_enter:
  assumes inv0: "jobs_inv s" and t0: "t < length (stacks s)"
  shows "jobs_inv (default_do_par_for_enter h t uc f mn sz cl s)"
proof -
  define s1 where "s1 = lazy_init h s"
  define s2 where "s2 = push_job uc f mn sz cl s1"
  define wb where "wb = (sz > a_team_size (work_queue s1))"
  have inv: "jobs_inv s1" unfolding s1_def by (rule jobs_inv_lazy_init[OF inv0])
  have t: "t < length (stacks s2)"
    using t0 lazy_init_effect(7)[of s h] by (simp add: s2_def s1_def push_job_effect)
  have res: "default_do_par_for_enter h t uc f mn sz cl s = push_frame t (Pushed (n_alloc s1) wb) s2"
    by (simp add: default_do_par_for_enter_def Let_def s1_def s2_def wb_def)
  note eff = push_job_effect[where uc=uc and f=f and mn=mn and sz=sz and cl=cl and s=s1, folded s2_def]
  have ex: "executing (push_frame t (Pushed (n_alloc s1) wb) s2) j = executing s1 j" for j
    using t eff(1)[of j] by (simp add: push_frame_def executing_def)
  have ow: "owners (push_frame t (Pushed (n_alloc s1) wb) s2) j =
      owners s1 j + (if j = n_alloc s1 then 1 else 0)" for j
    using t eff(2)[of j] by (simp add: push_frame_def owners_def)
  have sel: "heap (push_frame t (Pushed (n_alloc s1) wb) s2) = heap s2"
    "n_alloc (push_frame t (Pushed (n_alloc s1) wb) s2) = Suc (n_alloc s1)"
    "returned (push_frame t (Pushed (n_alloc s1) wb) s2) = returned s1"
    "jobs (work_queue (push_frame t (Pushed (n_alloc s1) wb) s2)) = Some (n_alloc s1)"
    by (simp_all add: push_frame_def eff)
  show ?thesis unfolding res
  proof (rule jobs_invI, goal_cases)
    case (1 j)
    show ?case using jobs_invD(1,3)[OF inv, of j]
      by (cases "j = n_alloc s1") (simp_all add: ex sel eff make_job_def)
  next
    case (2 j)
    then show ?case using jobs_invD(2)[OF inv, of j] by (simp add: sel)
  next
    case (3 j)
    then show ?case using jobs_invD(3)[OF inv, of j] by (simp add: sel ex)
  next
    case (4 j)
    show ?case using jobs_invD(4)[OF inv, of j] jobs_invD(2)[OF inv, of j]
      by (auto simp add: sel ow less_Suc_eq)
  next
    case (5 j)
    then show ?case unfolding sel by simp
  next
    case (6 j below)
    then show ?case
      using jobs_invD(6)[OF inv, of j below] jobs_invD(5)[OF inv, of below]
      by (cases "j = n_alloc s1") (auto simp add: sel eff make_job_def less_Suc_eq)
  next
    case (7 j r)
    then have r: "returned s1 j = Some r" by (simp add: sel)
    with jobs_invD(7)[OF inv r] show ?case by (simp add: sel)
  next
    case (8 j r)
    then have r: "returned s1 j = Some r" by (simp add: sel)
    with jobs_invD(2)[OF inv, of j] have "j \<noteq> n_alloc s1" by auto
    with jobs_invD(8)[OF inv r] show ?case by (simp add: sel eff)
  qed
qed

lemma jobs_inv_call:
  assumes "jobs_inv s" and "t < length (stacks s)" and "call h t p s = Inr s'"
  shows "jobs_inv s'"
  using assms
  by (auto simp add: call_def jobs_inv_enter jobs_inv_shutdown_enter split: prog.splits)

lemma jobs_inv_step:
  assumes inv: "jobs_inv s" and step: "step h t s = Inr s'"
  shows "jobs_inv s'"
proof -
  from step obtain fr rest where t: "t < length (stacks s)" and top: "stacks s ! t = fr # rest"
    and fr: "step_frame h t fr s = Inr s'"
    by (auto simp add: step_def split: if_splits list.splits)
  show ?thesis
  proof (cases fr)
    case (User p)
    with fr show ?thesis using jobs_inv_call[OF inv t] by (simp add: step_frame_def)
  next
    case (Task owned job idx p)
    show ?thesis
    proof (cases p)
      case (Return r)
      with fr Task have loop: "worker_thread_loop t owned (after_task t owned job idx r s) = Inr s'"
        and alive: "returned s job = None"
        by (simp_all add: step_frame_def split: if_splits)
      note top' = top[unfolded Task]
      have "t < length (stacks (after_task t owned job idx r s))"
        "stacks (after_task t owned job idx r s) ! t = Enter owned # rest"
        using after_task_effect(11,12)[OF t top'] t by simp_all
      then show ?thesis
        by (rule jobs_inv_loop[OF jobs_inv_after_task[OF inv t top' alive] _ _ loop])
    next
      case (Par_for uc f mn sz cl k)
      with fr Task show ?thesis using jobs_inv_call[OF inv t] by (simp add: step_frame_def)
    next
      case (Shutdown_thread_pool k)
      with fr Task show ?thesis using jobs_inv_call[OF inv t] by (simp add: step_frame_def)
    qed
  next
    case (Pushed job wb)
    with fr show ?thesis using jobs_inv_wake[OF inv t top[unfolded Pushed]]
      by (simp add: step_frame_def)
  next
    case (Enter owned)
    with fr show ?thesis using jobs_inv_loop[OF inv t top[unfolded Enter]]
      by (simp add: step_frame_def)
  next
    case (Wait c owned)
    with fr show ?thesis by (simp add: step_frame_def)
  next
    case (Woken c owned)
    with fr have loop: "worker_thread_loop t owned (after_wait t c owned s) = Inr s'"
      by (simp add: step_frame_def)
    note top' = top[unfolded Woken]
    have "t < length (stacks (after_wait t c owned s))"
      "stacks (after_wait t c owned s) ! t = Enter owned # rest"
      using t top' by (simp_all add: after_wait_def set_top_def)
    then show ?thesis
      by (rule jobs_inv_loop[OF jobs_inv_after_wait[OF inv t top'] _ _ loop])
  next
    case (Leave job)
    with fr show ?thesis using jobs_inv_par_for_return[OF inv t top[unfolded Leave]]
      by (simp add: step_frame_def)
  next
    case Join
    with fr show ?thesis using jobs_inv_join[OF inv t top[unfolded Join]]
      by (simp add: step_frame_def)
  qed
qed

lemma reachable_jobs_inv:
  assumes "reachable h n0 clients s"
  shows "jobs_inv s"
  using assms
  by (induction rule: reachable.induct)
    (auto intro: jobs_inv_initial jobs_inv_step jobs_inv_spurious)

lemma reachable_run:
  assumes "reachable h n0 clients s" and "run h ts s = Inr s'"
  shows "reachable h n0 clients s'"
  using assms
  by (induction ts arbitrary: s) (auto split: sum.splits intro: reachable.step)

lemmas run_defs = step_def step_frame_def call_def default_do_par_for_enter_def lazy_init_def
  pool_size_def push_job_def make_job_def push_frame_def set_top_def default_do_par_for_wake_def
  halide_cond_broadcast_def worker_thread_loop_def claim_def default_do_task_def after_task_def
  after_wait_def worker_thread_return_def default_do_par_for_return_def pop_frame_def
  return_to_def work_running_def
  queue_running_def initial_def zero_work_def MAX_THREADS_def Let_def
  halide_shutdown_thread_pool_enter_def halide_shutdown_thread_pool_join_def joined_def
  tidy_up_def

lemma team_inv_I4:
  assumes "team_inv n0 s" and "0 \<le> n0"
  shows "0 \<le> a_team_size (work_queue s) \<and> a_team_size (work_queue s) \<le> num_threads s \<and>
         0 \<le> target_a_team_size (work_queue s) \<and>
         target_a_team_size (work_queue s) \<le> num_threads s"
proof -
  have "0 \<le> b_team s" by (simp add: b_team_def)
  with assms show ?thesis
    by (auto simp add: team_inv_def split: if_splits)
qed

lemma team_inv_initial: "team_inv n0 (initial n0 clients)"
  by (auto simp add: team_inv_def initial_def b_team_def b_team_ok_def pool_thread_def)

lemma pool_thread_resume [simp]: "pool_thread (resume v fs) = pool_thread fs"
  by (cases "(v, fs)" rule: resume.cases) (simp_all add: pool_thread_def)

lemma b_team_ok_resume [simp]: "b_team_ok (resume v fs) = b_team_ok fs"
  by (cases "(v, fs)" rule: resume.cases) (simp_all add: b_team_ok_def)

lemma pool_thread_wake [simp]: "pool_thread (wake cs fs) = pool_thread fs"
  by (cases "(cs, fs)" rule: wake.cases) (simp_all add: pool_thread_def)

lemma b_team_ok_wake [simp]: "b_team_ok (wake cs fs) = b_team_ok fs"
  by (cases "(cs, fs)" rule: wake.cases) (simp_all add: b_team_ok_def)

lemma b_team_resume [simp]:
  "length (filter b_team_frame (resume v fs)) = length (filter b_team_frame fs)"
  by (cases "(v, fs)" rule: resume.cases) simp_all

lemma b_team_wake [simp]:
  "count_frames b_team_frame (map (wake cs) ss) = count_frames b_team_frame ss"
  by (rule count_frames_wake) simp

lemma pool_thread_Cons [simp]: "pool_thread (fr # fs) \<longleftrightarrow> pool_frame fr \<or> pool_thread fs"
  by (simp add: pool_thread_def)

lemma pool_thread_Nil [simp]: "\<not> pool_thread []"
  by (simp add: pool_thread_def)

lemma b_team_ok_Cons [simp]:
  "b_team_ok (fr # fs) \<longleftrightarrow> (b_team_frame fr \<longrightarrow> pool_frame fr) \<and> b_team_ok fs"
  by (simp add: b_team_ok_def)

lemma b_team_ok_Nil [simp]: "b_team_ok []"
  by (simp add: b_team_ok_def)

lemma team_inv_cong:
  assumes "team_inv n0 s"
    and "length (stacks s') = length (stacks s)"
    and "\<And>t. t < length (stacks s) \<Longrightarrow> b_team_ok (stacks s ! t) \<Longrightarrow> b_team_ok (stacks s' ! t)"
    and "\<And>t. t < length (stacks s) \<Longrightarrow> pool_thread (stacks s' ! t) \<Longrightarrow> pool_thread (stacks s ! t)"
    and "b_team s' = b_team s"
    and "a_team_size (work_queue s') = a_team_size (work_queue s)"
    and "target_a_team_size (work_queue s') = target_a_team_size (work_queue s)"
    and "threads (work_queue s') = threads (work_queue s)"
    and "num_threads s' = num_threads s"
    and "thread_pool_initialized s' = thread_pool_initialized s"
  shows "team_inv n0 s'"
  using assms(1,3,4) unfolding team_inv_def assms(2,5-10) by blast

lemma team_inv_set_top:
  assumes "team_inv n0 s" and "t < length (stacks s)" and "stacks s ! t = fr # rest"
    and "pool_frame fr' = pool_frame fr" and "b_team_frame fr' = b_team_frame fr"
  shows "team_inv n0 (set_top t fr' s)"
  using assms(1)
proof (rule team_inv_cong)
  fix t' assume "t' < length (stacks s)" "b_team_ok (stacks s ! t')"
  then show "b_team_ok (stacks (set_top t fr' s) ! t')"
    using assms(2-5) by (cases "t' = t") (auto simp add: set_top_def)
next
  fix t' assume "t' < length (stacks s)" "pool_thread (stacks (set_top t fr' s) ! t')"
  then show "pool_thread (stacks s ! t')"
    using assms(2-5) by (cases "t' = t") (auto simp add: set_top_def)
qed (use assms(2-5) in \<open>simp_all add: set_top_def b_team_def\<close>)

lemma team_inv_broadcast:
  assumes "team_inv n0 s"
  shows "team_inv n0 (halide_cond_broadcast cs s)"
  using assms
  by (rule team_inv_cong) (simp_all add: b_team_def, simp_all add: halide_cond_broadcast_def)

lemma team_inv_heap_update [simp]: "team_inv n0 (s\<lparr>heap := x\<rparr>) = team_inv n0 s"
  by (simp add: team_inv_def b_team_def)

lemma team_inv_completed_update [simp]: "team_inv n0 (s\<lparr>completed := x\<rparr>) = team_inv n0 s"
  by (simp add: team_inv_def b_team_def)

lemma team_inv_invoked_update [simp]: "team_inv n0 (s\<lparr>invoked := x\<rparr>) = team_inv n0 s"
  by (simp add: team_inv_def b_team_def)

lemma team_inv_returned_update [simp]: "team_inv n0 (s\<lparr>returned := x\<rparr>) = team_inv n0 s"
  by (simp add: team_inv_def b_team_def)

lemma team_inv_jobs_update [simp]:
  "team_inv n0 (s\<lparr>work_queue := (work_queue s)\<lparr>jobs := x\<rparr>\<rparr>) = team_inv n0 s"
  by (simp add: team_inv_def b_team_def)

lemma team_inv_after_task:
  assumes "team_inv n0 s" and "t < length (stacks s)"
    and "stacks s ! t = Task owned job idx p # rest"
  shows "team_inv n0 (after_task t owned job idx r s)"
proof -
  let ?s0 = "s\<lparr>heap := (heap s)
      (job := (if r \<noteq> 0 then (heap s job)\<lparr>exit_status := r\<rparr> else heap s job)
         \<lparr>active_workers := active_workers (if r \<noteq> 0 then (heap s job)\<lparr>exit_status := r\<rparr>
            else heap s job) - 1\<rparr>),
      completed := completed s @ [(job, idx, r)]\<rparr>"
  have "team_inv n0 (set_top t (Enter owned) ?s0)"
    by (rule team_inv_set_top[where fr="Task owned job idx p" and rest=rest])
      (use assms in simp_all)
  then show ?thesis
    by (simp add: after_task_def Let_def team_inv_broadcast)
qed

lemma team_inv_wake:
  assumes "team_inv n0 s" and "t < length (stacks s)" and "stacks s ! t = Pushed job wake_b # rest"
  shows "team_inv n0 (default_do_par_for_wake t job wake_b s)"
  unfolding default_do_par_for_wake_def
  by (rule team_inv_set_top[where fr="Pushed job wake_b" and rest=rest])
     (use assms in \<open>simp_all add: team_inv_broadcast\<close>)

lemma team_inv_spurious:
  assumes "team_inv n0 s" and "spurious_wakeup t s = Inr s'"
  shows "team_inv n0 s'"
proof -
  from assms(2) obtain c owned rest where t: "t < length (stacks s)"
    and top: "stacks s ! t = Wait c owned # rest" and s': "s' = set_top t (Woken c owned) s"
    by (auto simp add: spurious_wakeup_def split: if_splits list.splits frame.splits)
  show ?thesis unfolding s'
    by (rule team_inv_set_top[OF assms(1) t top]) simp_all
qed

lemma team_inv_after_wait:
  assumes inv: "team_inv n0 s" and t: "t < length (stacks s)"
    and top: "stacks s ! t = Woken c owned # rest"
  shows "team_inv n0 (after_wait t c owned s)"
proof (cases "c = Wakeup_b_team")
  case False
  then have "after_wait t c owned s = set_top t (Enter owned) s"
    by (simp add: after_wait_def)
  moreover have "team_inv n0 (set_top t (Enter owned) s)"
    by (rule team_inv_set_top[OF inv t top]) (use False in simp_all)
  ultimately show ?thesis by simp
next
  case True
  let ?s' = "after_wait t c owned s"
  have ok: "b_team_ok (stacks s ! t)" using inv t by (simp add: team_inv_def)
  with top True have owned: "owned = None" by simp
  then have pool: "pool_thread (stacks s ! t)" using top by simp
  with inv t have init: "thread_pool_initialized s" by (simp add: team_inv_def)
  have st: "stacks ?s' = (stacks s)[t := Enter owned # rest]"
    using top by (simp add: after_wait_def set_top_def)
  have b: "b_team ?s' = b_team s - 1"
    unfolding b_team_def st using t top True by simp
  have sel: "a_team_size (work_queue ?s') = a_team_size (work_queue s) + 1"
    "target_a_team_size (work_queue ?s') = target_a_team_size (work_queue s)"
    "threads (work_queue ?s') = threads (work_queue s)"
    "num_threads ?s' = num_threads s" "thread_pool_initialized ?s' = thread_pool_initialized s"
    using True by (simp_all add: after_wait_def set_top_def)
  have "\<forall>t' < length (stacks s). b_team_ok (stacks ?s' ! t')"
    using inv t top by (auto simp add: st team_inv_def nth_list_update)
  moreover have "\<forall>t' < length (stacks s). pool_thread (stacks ?s' ! t') \<longrightarrow> pool_thread (stacks s ! t')"
    using t top by (auto simp add: st nth_list_update)
  ultimately show ?thesis
    using inv init unfolding team_inv_def sel b
    by (auto simp add: st split: if_splits)
qed

lemma team_inv_wait_b:
  assumes inv: "team_inv n0 s" and t: "t < length (stacks s)"
    and top: "stacks s ! t = Enter None # rest"
    and over: "\<not> a_team_size (work_queue s) \<le> target_a_team_size (work_queue s)"
  shows "team_inv n0 (set_top t (Wait Wakeup_b_team None)
           (s\<lparr>work_queue := (work_queue s)\<lparr>a_team_size := a_team_size (work_queue s) - 1\<rparr>\<rparr>))"
    (is "team_inv n0 ?s'")
proof -
  have pool: "pool_thread (stacks s ! t)" using top by simp
  with inv t have init: "thread_pool_initialized s" by (simp add: team_inv_def)
  have st: "stacks ?s' = (stacks s)[t := Wait Wakeup_b_team None # rest]"
    using top by (simp add: set_top_def)
  have b: "b_team ?s' = b_team s + 1"
    unfolding b_team_def st using t top by simp
  have sel: "a_team_size (work_queue ?s') = a_team_size (work_queue s) - 1"
    "target_a_team_size (work_queue ?s') = target_a_team_size (work_queue s)"
    "threads (work_queue ?s') = threads (work_queue s)"
    "num_threads ?s' = num_threads s" "thread_pool_initialized ?s' = thread_pool_initialized s"
    by (simp_all add: set_top_def)
  have "\<forall>t' < length (stacks s). b_team_ok (stacks ?s' ! t')"
    using inv t top by (auto simp add: st team_inv_def nth_list_update)
  moreover have "\<forall>t' < length (stacks s). pool_thread (stacks ?s' ! t') \<longrightarrow> pool_thread (stacks s ! t')"
    using t top by (auto simp add: st nth_list_update)
  ultimately show ?thesis
    using inv init over unfolding team_inv_def sel b
    by (auto simp add: st split: if_splits)
qed

lemma team_inv_pop:
  assumes inv: "team_inv n0 s" and t: "t < length (stacks s)"
    and top: "stacks s ! t = fr # rest" and fr: "\<not> b_team_frame fr"
    and fs: "fs = rest \<or> fs = resume v rest"
  shows "team_inv n0 (s\<lparr>stacks := (stacks s)[t := fs]\<rparr>)"
  using inv
proof (rule team_inv_cong)
  fix t' assume "t' < length (stacks s)" "b_team_ok (stacks s ! t')"
  then show "b_team_ok (stacks (s\<lparr>stacks := (stacks s)[t := fs]\<rparr>) ! t')"
    using fs top by (cases "t' = t") auto
next
  fix t' assume "t' < length (stacks s)" "pool_thread (stacks (s\<lparr>stacks := (stacks s)[t := fs]\<rparr>) ! t')"
  then show "pool_thread (stacks s ! t')"
    using fs top by (cases "t' = t") auto
next
  show "b_team (s\<lparr>stacks := (stacks s)[t := fs]\<rparr>) = b_team s"
    unfolding b_team_def using fs t top fr by auto
qed simp_all

lemma team_inv_return:
  assumes inv: "team_inv n0 s" and t: "t < length (stacks s)"
    and top: "stacks s ! t = Enter owned # rest"
  shows "team_inv n0 (worker_thread_return t owned s)"
proof (cases owned)
  case None
  have "team_inv n0 (s\<lparr>stacks := (stacks s)[t := rest]\<rparr>)"
    by (rule team_inv_pop[OF inv t top]) simp_all
  with None top show ?thesis by (simp add: worker_thread_return_def)
next
  case (Some oj)
  have "team_inv n0 (set_top t (Leave oj) s)"
    by (rule team_inv_set_top[OF inv t top]) (simp_all add: Some)
  with Some show ?thesis by (simp add: worker_thread_return_def)
qed

lemma team_inv_par_for_return:
  assumes inv: "team_inv n0 s" and t: "t < length (stacks s)"
    and top: "stacks s ! t = Leave job # rest"
  shows "team_inv n0 (default_do_par_for_return t job s)"
proof -
  have "team_inv n0 (s\<lparr>stacks := (stacks s)[t := resume (exit_status (heap s job)) rest]\<rparr>)"
    by (rule team_inv_pop[OF inv t top, where v="exit_status (heap s job)"]) simp_all
  moreover have "team_inv n0 (default_do_par_for_return t job s) =
      team_inv n0 (s\<lparr>stacks := (stacks s)[t := resume (exit_status (heap s job)) rest]\<rparr>)"
    using top by (simp add: default_do_par_for_return_def pop_frame_def team_inv_def b_team_def)
  ultimately show ?thesis by simp
qed

lemma team_inv_loop:
  assumes inv: "team_inv n0 s" and t: "t < length (stacks s)"
    and top: "stacks s ! t = Enter owned # rest"
    and step: "worker_thread_loop t owned s = Inr s'"
  shows "team_inv n0 s'"
proof -
  have wait: "team_inv n0 (set_top t (Wait c owned) s)" if "c \<noteq> Wakeup_b_team" for c
    by (rule team_inv_set_top[OF inv t top]) (use that in simp_all)
  have claim: "team_inv n0 (claim t owned job s)" for job
    unfolding claim_def Let_def
    by (rule team_inv_set_top[where fr="Enter owned" and rest=rest])
      (use inv t top in \<open>simp_all split: if_splits\<close>)
  from step show ?thesis
    using wait[of Wakeup_owners] wait[of Wakeup_a_team] team_inv_wait_b[OF inv t, of rest]
      team_inv_return[OF inv t top] claim top
    by (auto simp add: worker_thread_loop_def split: if_splits option.splits)
qed

lemma pool_size_range: "1 \<le> pool_size h n \<and> pool_size h n \<le> MAX_THREADS"
  by (simp add: pool_size_def Let_def MAX_THREADS_def)

lemma pool_size_fixed: "1 \<le> n \<Longrightarrow> n \<le> MAX_THREADS \<Longrightarrow> pool_size h n = n"
  by (simp add: pool_size_def Let_def)

lemma no_pool_no_b_team:
  assumes "\<forall>t < length ss. b_team_ok (ss ! t)" and "\<forall>t < length ss. \<not> pool_thread (ss ! t)"
  shows "count_frames b_team_frame ss = 0"
  unfolding count_frames_zero_iff
  using assms by (fastforce simp add: in_set_conv_nth b_team_ok_def pool_thread_def)

lemma team_inv_lazy_init:
  assumes inv: "team_inv n0 s"
  shows "team_inv n0 (lazy_init h s) \<and> thread_pool_initialized (lazy_init h s)"
proof (cases "thread_pool_initialized s")
  case True
  with inv show ?thesis by (simp add: lazy_init_def)
next
  case False
  define n where "n = pool_size h (num_threads s)"
  let ?s' = "lazy_init h s"
  have st: "stacks ?s' = stacks s @ replicate (nat (n - 1)) [Enter None]"
    and sel: "num_threads ?s' = n" "thread_pool_initialized ?s'"
      "a_team_size (work_queue ?s') = n"
      "target_a_team_size (work_queue ?s') = target_a_team_size (work_queue s)"
      "threads (work_queue ?s') =
         (\<lambda>i. if int i < n - 1 then length (stacks s) + i else threads (work_queue s) i)"
    using False by (simp_all add: lazy_init_def Let_def n_def)
  have n: "1 \<le> n" "n \<le> MAX_THREADS" using pool_size_range[of h "num_threads s"] by (simp_all add: n_def)
  have nopool: "\<forall>t < length (stacks s). \<not> pool_thread (stacks s ! t)"
    using inv False by (auto simp add: team_inv_def)
  have ok: "\<forall>t < length (stacks s). b_team_ok (stacks s ! t)"
    using inv by (simp add: team_inv_def)
  have b0: "b_team s = 0" unfolding b_team_def by (rule no_pool_no_b_team[OF ok nopool])
  have b: "b_team ?s' = 0" using b0 by (simp add: b_team_def st)
  have tgt: "0 \<le> target_a_team_size (work_queue s) \<and> target_a_team_size (work_queue s) \<le> n"
  proof (cases "1 \<le> num_threads s \<and> num_threads s \<le> MAX_THREADS \<and>
         a_team_size (work_queue s) + b_team s = num_threads s")
    case True
    then have "n = num_threads s" by (simp add: n_def pool_size_fixed)
    with True inv show ?thesis by (simp add: team_inv_def)
  next
    case False
    with inv n show ?thesis by (simp add: team_inv_def)
  qed
  have p1: "\<forall>t < length (stacks ?s'). b_team_ok (stacks ?s' ! t)"
    using ok by (auto simp add: st nth_append)
  have p2: "\<forall>t < length (stacks ?s'). pool_thread (stacks ?s' ! t) \<longrightarrow>
      (\<exists>i. int i < n - 1 \<and> threads (work_queue ?s') i = t)"
  proof (intro allI impI)
    fix t assume t: "t < length (stacks ?s')" and "pool_thread (stacks ?s' ! t)"
    with nopool have ge: "length (stacks s) \<le> t"
      by (auto simp add: st nth_append split: if_splits)
    from t have "t - length (stacks s) < nat (n - 1)" using ge by (simp add: st)
    then have "int (t - length (stacks s)) < n - 1" by linarith
    moreover from this have "threads (work_queue ?s') (t - length (stacks s)) = t"
      using ge by (simp add: sel)
    ultimately show "\<exists>i. int i < n - 1 \<and> threads (work_queue ?s') i = t" by blast
  qed
  show ?thesis
    using p1 p2 n tgt b sel(2) unfolding team_inv_def sel(1,3-5) by simp
qed

lemma team_inv_push_frame:
  assumes "team_inv n0 s" and "t < length (stacks s)" and "\<not> pool_frame fr" and "\<not> b_team_frame fr"
  shows "team_inv n0 (push_frame t fr s)"
  using assms(1)
proof (rule team_inv_cong)
  fix t' assume "t' < length (stacks s)" "b_team_ok (stacks s ! t')"
  then show "b_team_ok (stacks (push_frame t fr s) ! t')"
    using assms(2-4) by (cases "t' = t") (auto simp add: push_frame_def)
next
  fix t' assume "t' < length (stacks s)" "pool_thread (stacks (push_frame t fr s) ! t')"
  then show "pool_thread (stacks s ! t')"
    using assms(2-4) by (cases "t' = t") (auto simp add: push_frame_def)
qed (use assms(2-4) in \<open>simp_all add: push_frame_def b_team_def\<close>)

lemma team_inv_push_job:
  assumes inv: "team_inv n0 s" and init: "thread_pool_initialized s" and sz: "0 \<le> sz"
  shows "team_inv n0 (push_job uc f mn sz cl s)"
  using assms unfolding team_inv_def
  by (simp add: push_job_def Let_def b_team_def split: if_splits)

lemma team_inv_enter:
  assumes inv: "team_inv n0 s" and t: "t < length (stacks s)" and sz: "0 \<le> sz"
  shows "team_inv n0 (default_do_par_for_enter h t uc f mn sz cl s)"
proof -
  have "t < length (stacks (push_job uc f mn sz cl (lazy_init h s)))"
    using t lazy_init_effect(7)[of s h] by (simp add: push_job_effect)
  then show ?thesis
    unfolding default_do_par_for_enter_def Let_def
    using team_inv_lazy_init[OF inv, of h] sz
    by (intro team_inv_push_frame team_inv_push_job) simp_all
qed

lemma team_inv_return_to:
  assumes "team_inv n0 s" and "t < length (stacks s)"
  shows "team_inv n0 (return_to t v s)"
  using assms(1)
proof (rule team_inv_cong)
  fix t' assume "t' < length (stacks s)" "b_team_ok (stacks s ! t')"
  then show "b_team_ok (stacks (return_to t v s) ! t')"
    by (cases "t' = t") (auto simp add: return_to_def)
next
  fix t' assume "t' < length (stacks s)" "pool_thread (stacks (return_to t v s) ! t')"
  then show "pool_thread (stacks s ! t')"
    by (cases "t' = t") (auto simp add: return_to_def)
qed (use assms(2) in \<open>simp_all add: return_to_def b_team_def\<close>)

lemma team_inv_shutdown_flag:
  "team_inv n0 (s\<lparr>work_queue := (work_queue s)\<lparr>shutdown := x\<rparr>, shutdowns := y\<rparr>) =
     team_inv n0 s"
  by (simp add: team_inv_def b_team_def)

lemma team_inv_shutdown_enter:
  assumes "team_inv n0 s" and "t < length (stacks s)"
  shows "team_inv n0 (halide_shutdown_thread_pool_enter t s)"
  unfolding halide_shutdown_thread_pool_enter_def
  using assms
  by (auto intro!: team_inv_return_to team_inv_push_frame team_inv_broadcast
      simp add: team_inv_shutdown_flag)

lemma team_inv_join:
  assumes inv: "team_inv n0 s" and t: "t < length (stacks s)" and top: "stacks s ! t = Join # rest"
    and step: "halide_shutdown_thread_pool_join t s = Inr s'"
  shows "team_inv n0 s'"
proof -
  from step have j: "joined s" and s': "s' = pop_frame t 0 (tidy_up s)"
    by (simp_all add: halide_shutdown_thread_pool_join_def split: if_splits)
  have nopool: "\<not> pool_thread (stacks s ! t')" if "t' < length (stacks s)" for t'
  proof
    assume "pool_thread (stacks s ! t')"
    with inv that obtain i where "int i < num_threads s - 1" "threads (work_queue s) i = t'"
      by (auto simp add: team_inv_def)
    with j have "stacks s ! t' = []" by (auto simp add: joined_def)
    with \<open>pool_thread (stacks s ! t')\<close> show False by simp
  qed
  have st: "stacks s' = (stacks s)[t := resume 0 rest]"
    and sel: "a_team_size (work_queue s') = a_team_size (work_queue s)"
      "target_a_team_size (work_queue s') = target_a_team_size (work_queue s)"
      "threads (work_queue s') = threads (work_queue s)" "num_threads s' = num_threads s"
      "\<not> thread_pool_initialized s'"
    using top by (simp_all add: s' pop_frame_def)
  have b: "b_team s' = b_team s"
    unfolding b_team_def st using t top by simp
  have p1: "\<forall>t' < length (stacks s'). b_team_ok (stacks s' ! t')"
    using inv t top by (auto simp add: st team_inv_def nth_list_update)
  have "\<not> pool_thread rest" using nopool[OF t] top by simp
  then have p2: "\<forall>t' < length (stacks s'). \<not> pool_thread (stacks s' ! t')"
    using nopool t by (auto simp add: st nth_list_update)
  from inv p1 p2 sel(5) show ?thesis
    unfolding team_inv_def sel(1-4) b by (auto split: if_splits)
qed

lemma submitted_loop:
  "worker_thread_loop t owned s = Inr s' \<Longrightarrow> submitted s' = submitted s"
  by (auto simp add: worker_thread_loop_def claim_def worker_thread_return_def pop_frame_def
      set_top_def Let_def split: if_splits option.splits)

lemma submitted_after_task [simp]: "submitted (after_task t owned job idx r s) = submitted s"
  by (simp add: after_task_def Let_def set_top_def halide_cond_broadcast_def)

lemma submitted_after_wait [simp]: "submitted (after_wait t c owned s) = submitted s"
  by (simp add: after_wait_def set_top_def)

lemma submitted_enter [simp]:
  "submitted (default_do_par_for_enter h t uc f mn sz cl s) = submitted s @ [(n_alloc s, mn, sz)]"
  by (simp add: default_do_par_for_enter_def push_job_def push_frame_def lazy_init_def Let_def)

lemma submitted_call:
  "call h t p s = Inr s' \<Longrightarrow> set (submitted s) \<subseteq> set (submitted s')"
  by (auto simp add: call_def halide_shutdown_thread_pool_enter_def return_to_def push_frame_def
      halide_cond_broadcast_def split: prog.splits)

lemma submitted_step:
  assumes "step h t s = Inr s'"
  shows "set (submitted s) \<subseteq> set (submitted s')"
proof -
  from assms obtain fr rest where fr: "step_frame h t fr s = Inr s'"
    by (auto simp add: step_def split: if_splits list.splits)
  show ?thesis
  proof (cases fr)
    case (Task owned job idx p)
    with fr show ?thesis
      by (cases p) (auto simp add: step_frame_def dest: submitted_loop submitted_call
          split: if_splits)
  qed (use fr in \<open>auto simp add: step_frame_def default_do_par_for_wake_def set_top_def
        halide_cond_broadcast_def halide_shutdown_thread_pool_join_def pop_frame_def
        default_do_par_for_return_def
        dest: submitted_loop submitted_call split: if_splits\<close>)
qed

lemma sizes_ok_step:
  assumes "step h t s = Inr s'" and "sizes_ok s'"
  shows "sizes_ok s"
  using submitted_step[OF assms(1)] assms(2) by (auto simp add: sizes_ok_def)

lemma team_inv_call:
  assumes inv: "team_inv n0 s" and t: "t < length (stacks s)" and step: "call h t p s = Inr s'"
    and ok: "sizes_ok s'"
  shows "team_inv n0 s'"
proof (cases p)
  case (Return r)
  with step show ?thesis by (simp add: call_def)
next
  case (Par_for uc f mn sz cl k)
  with step have s': "s' = default_do_par_for_enter h t uc f mn sz cl s" by (simp add: call_def)
  with ok have "0 \<le> sz" by (simp add: sizes_ok_def)
  then show ?thesis unfolding s' by (rule team_inv_enter[OF inv t])
next
  case (Shutdown_thread_pool k)
  with step show ?thesis using team_inv_shutdown_enter[OF inv t] by (simp add: call_def)
qed

lemma team_inv_step:
  assumes inv: "team_inv n0 s" and step: "step h t s = Inr s'" and ok: "sizes_ok s'"
  shows "team_inv n0 s'"
proof -
  from step obtain fr rest where t: "t < length (stacks s)" and top: "stacks s ! t = fr # rest"
    and fr: "step_frame h t fr s = Inr s'"
    by (auto simp add: step_def split: if_splits list.splits)
  show ?thesis
  proof (cases fr)
    case (User p)
    with fr show ?thesis using team_inv_call[OF inv t _ ok] by (simp add: step_frame_def)
  next
    case (Task owned job idx p)
    show ?thesis
    proof (cases p)
      case (Return r)
      with fr Task have loop: "worker_thread_loop t owned (after_task t owned job idx r s) = Inr s'"
        by (simp add: step_frame_def split: if_splits)
      note top' = top[unfolded Task]
      have "t < length (stacks (after_task t owned job idx r s))"
        "stacks (after_task t owned job idx r s) ! t = Enter owned # rest"
        using after_task_effect(11,12)[OF t top'] t by simp_all
      then show ?thesis
        by (rule team_inv_loop[OF team_inv_after_task[OF inv t top'] _ _ loop])
    next
      case (Par_for uc f mn sz cl k)
      with fr Task show ?thesis using team_inv_call[OF inv t _ ok] by (simp add: step_frame_def)
    next
      case (Shutdown_thread_pool k)
      with fr Task show ?thesis using team_inv_call[OF inv t _ ok] by (simp add: step_frame_def)
    qed
  next
    case (Pushed job wb)
    with fr show ?thesis using team_inv_wake[OF inv t top[unfolded Pushed]]
      by (simp add: step_frame_def)
  next
    case (Enter owned)
    with fr show ?thesis using team_inv_loop[OF inv t top[unfolded Enter]]
      by (simp add: step_frame_def)
  next
    case (Wait c owned)
    with fr show ?thesis by (simp add: step_frame_def)
  next
    case (Woken c owned)
    with fr have loop: "worker_thread_loop t owned (after_wait t c owned s) = Inr s'"
      by (simp add: step_frame_def)
    note top' = top[unfolded Woken]
    have "t < length (stacks (after_wait t c owned s))"
      "stacks (after_wait t c owned s) ! t = Enter owned # rest"
      using t top' by (simp_all add: after_wait_def set_top_def)
    then show ?thesis
      by (rule team_inv_loop[OF team_inv_after_wait[OF inv t top'] _ _ loop])
  next
    case (Leave job)
    with fr show ?thesis using team_inv_par_for_return[OF inv t top[unfolded Leave]]
      by (simp add: step_frame_def)
  next
    case Join
    with fr show ?thesis using team_inv_join[OF inv t top[unfolded Join]]
      by (simp add: step_frame_def)
  qed
qed

lemma reachable_team_inv:
  assumes "reachable h n0 clients s" and "sizes_ok s"
  shows "team_inv n0 s"
  using assms
proof (induction rule: reachable.induct)
  case start
  show ?case by (rule team_inv_initial)
next
  case (step s t s')
  from step.hyps(2) step.prems have "sizes_ok s" by (rule sizes_ok_step)
  then have "team_inv n0 s" by (rule step.IH)
  then show ?case using step.hyps(2) step.prems by (rule team_inv_step)
next
  case (spurious s t s')
  from spurious.hyps(2) have "submitted s' = submitted s"
    by (auto simp add: spurious_wakeup_def set_top_def split: if_splits list.splits frame.splits)
  with spurious.prems have "sizes_ok s" by (simp add: sizes_ok_def)
  then have "team_inv n0 s" by (rule spurious.IH)
  then show ?case using spurious.hyps(2) by (rule team_inv_spurious)
qed

lemma status_inv_initial: "status_inv (initial n0 clients)"
  by (simp add: status_inv_def initial_def zero_work_def failed_with_def)

lemma status_inv_cong:
  assumes "status_inv s"
    and "completed s' = completed s" and "n_alloc s' = n_alloc s"
    and "\<And>job. exit_status (heap s' job) = exit_status (heap s job)"
  shows "status_inv s'"
  using assms(1) unfolding status_inv_def failed_with_def assms(2-4) .

lemma status_inv_after_task:
  assumes inv: "status_inv s" and alloc: "job < n_alloc s"
  shows "status_inv (after_task t owned job idx r s)"
proof -
  let ?s' = "after_task t owned job idx r s"
  have sel: "completed ?s' = completed s @ [(job, idx, r)]" "n_alloc ?s' = n_alloc s"
    "\<And>j. exit_status (heap ?s' j) = (if j = job \<and> r \<noteq> 0 then r else exit_status (heap s j))"
    by (simp_all add: after_task_def Let_def set_top_def halide_cond_broadcast_def)
  have f: "failed_with ?s' j x \<longleftrightarrow> failed_with s j x \<or> (j = job \<and> x = r \<and> r \<noteq> 0)" for j x
    by (auto simp add: failed_with_def sel)
  show ?thesis
    unfolding status_inv_def
  proof (intro conjI allI impI)
    fix j i x assume "(j, i, x) \<in> set (completed ?s')"
    then show "j < n_alloc ?s'" using inv alloc by (auto simp add: sel status_inv_def)
  next
    fix j
    have old: "if \<exists>x. failed_with s j x then failed_with s j (exit_status (heap s j))
          else exit_status (heap s j) = 0"
      using inv by (simp add: status_inv_def)
    show "if \<exists>x. failed_with ?s' j x then failed_with ?s' j (exit_status (heap ?s' j))
          else exit_status (heap ?s' j) = 0"
      using old unfolding f sel(3) by (auto split: if_splits)
  qed
qed

lemma status_inv_enter:
  assumes inv: "status_inv s"
  shows "status_inv (default_do_par_for_enter h t uc f mn sz cl s)"
proof -
  let ?s' = "default_do_par_for_enter h t uc f mn sz cl s"
  have sel: "completed ?s' = completed s" "n_alloc ?s' = Suc (n_alloc s)"
    "\<And>j. exit_status (heap ?s' j) = (if j = n_alloc s then 0 else exit_status (heap s j))"
    by (simp_all add: default_do_par_for_enter_def push_job_def push_frame_def lazy_init_def
        make_job_def Let_def)
  have fresh: "\<not> failed_with s (n_alloc s) x" for x
    using inv by (auto simp add: status_inv_def failed_with_def)
  have f: "failed_with ?s' j x \<longleftrightarrow> failed_with s j x" for j x
    by (simp add: failed_with_def sel)
  show ?thesis
    unfolding status_inv_def f sel
    using inv fresh by (auto simp add: status_inv_def less_Suc_eq)
qed

lemma status_inv_loop:
  assumes inv: "status_inv s" and step: "worker_thread_loop t owned s = Inr s'"
  shows "status_inv s'"
  using inv
proof (rule status_inv_cong)
  show "completed s' = completed s" "n_alloc s' = n_alloc s"
    using step
    by (auto simp add: worker_thread_loop_def claim_def worker_thread_return_def pop_frame_def
        set_top_def Let_def split: if_splits option.splits)
  show "exit_status (heap s' job) = exit_status (heap s job)" for job
    using step
    by (auto simp add: worker_thread_loop_def claim_def worker_thread_return_def pop_frame_def
        set_top_def Let_def split: if_splits option.splits)
qed

lemma status_inv_call:
  assumes inv: "status_inv s" and step: "call h t p s = Inr s'"
  shows "status_inv s'"
proof (cases p)
  case (Shutdown_thread_pool k)
  with step have s': "s' = halide_shutdown_thread_pool_enter t s" by (simp add: call_def)
  show ?thesis using inv unfolding s'
    by (rule status_inv_cong)
      (simp_all add: halide_shutdown_thread_pool_enter_def return_to_def push_frame_def
        halide_cond_broadcast_def)
qed (use step inv in \<open>auto simp add: call_def status_inv_enter\<close>)

lemma status_inv_step:
  assumes inv: "status_inv s" and jinv: "jobs_inv s" and step: "step h t s = Inr s'"
  shows "status_inv s'"
proof -
  from step obtain fr rest where t: "t < length (stacks s)" and top: "stacks s ! t = fr # rest"
    and fr: "step_frame h t fr s = Inr s'"
    by (auto simp add: step_def split: if_splits list.splits)
  show ?thesis
  proof (cases fr)
    case (User p)
    with fr show ?thesis using status_inv_call[OF inv] by (simp add: step_frame_def)
  next
    case (Task owned job idx p)
    show ?thesis
    proof (cases p)
      case (Return r)
      with fr Task have loop: "worker_thread_loop t owned (after_task t owned job idx r s) = Inr s'"
        by (simp add: step_frame_def split: if_splits)
      have "job < n_alloc s"
        using task_frame_live(1)[OF jinv t, of owned job idx p] top Task by simp
      then show ?thesis
        by (intro status_inv_loop[OF _ loop] status_inv_after_task[OF inv])
    qed (use fr Task status_inv_call[OF inv] in \<open>simp_all add: step_frame_def\<close>)
  next
    case (Pushed job wb)
    with fr have s': "s' = default_do_par_for_wake t job wb s" by (simp add: step_frame_def)
    show ?thesis using inv unfolding s'
      by (rule status_inv_cong)
        (simp_all add: default_do_par_for_wake_def set_top_def halide_cond_broadcast_def)
  next
    case (Enter owned)
    with fr show ?thesis using status_inv_loop[OF inv] by (simp add: step_frame_def)
  next
    case (Wait c owned)
    with fr show ?thesis by (simp add: step_frame_def)
  next
    case (Woken c owned)
    with fr have loop: "worker_thread_loop t owned (after_wait t c owned s) = Inr s'"
      by (simp add: step_frame_def)
    have "status_inv (after_wait t c owned s)"
      using inv by (rule status_inv_cong) (simp_all add: after_wait_def set_top_def)
    then show ?thesis using loop by (rule status_inv_loop)
  next
    case (Leave job)
    with fr have s': "s' = default_do_par_for_return t job s" by (simp add: step_frame_def)
    show ?thesis using inv unfolding s'
      by (rule status_inv_cong) (simp_all add: default_do_par_for_return_def pop_frame_def)
  next
    case Join
    with fr have s': "s' = pop_frame t 0 (tidy_up s)"
      by (simp add: step_frame_def halide_shutdown_thread_pool_join_def split: if_splits)
    show ?thesis using inv unfolding s'
      by (rule status_inv_cong) (simp_all add: pop_frame_def)
  qed
qed

lemma reachable_status_inv:
  assumes "reachable h n0 clients s"
  shows "status_inv s"
  using assms
proof (induction rule: reachable.induct)
  case start
  show ?case by (rule status_inv_initial)
next
  case (step s t s')
  then show ?case using status_inv_step reachable_jobs_inv by blast
next
  case (spurious s t s')
  show ?case using spurious.IH
    by (rule status_inv_cong)
      (use spurious.hyps(2) in \<open>auto simp add: spurious_wakeup_def set_top_def
          split: if_splits list.splits frame.splits\<close>)
qed

subsection \<open>The submitter alone drives its job to completion\<close>

lemma kept_refl [simp]: "kept s s"
  by (simp add: kept_def)

lemma kept_trans: "kept s s' \<Longrightarrow> kept s' s'' \<Longrightarrow> kept s s''"
  by (auto simp add: kept_def)

lemma run_append:
  "run h (xs @ ys) s = (case run h xs s of Inl e \<Rightarrow> Inl e | Inr s' \<Rightarrow> run h ys s')"
  by (induction xs arbitrary: s) (auto split: sum.splits)

lemma alone_0 [simp]: "alone h t 0 s = Inr s"
  by (simp add: alone_def)

lemma alone_add:
  "alone h t m s = Inr s' \<Longrightarrow> alone h t (m + n) s = alone h t n s'"
  by (simp add: alone_def replicate_add run_append)

lemma alone_Suc:
  "step h t s = Inr s' \<Longrightarrow> alone h t (Suc n) s = alone h t n s'"
  by (simp add: alone_def)

lemma alone_Suc_cong:
  "step h t s = step h t u \<Longrightarrow> alone h t (Suc n) s = alone h t (Suc n) u"
  by (simp add: alone_def)

lemma loop_exit:
  assumes "in_loop t J rest uc f cl mx below mx u"
  shows "\<exists>u'. alone h t (Suc (Suc 0)) u = Inr u' \<and> left_loop t J rest below u u'"
proof -
  let ?u1 = "set_top t (Leave J) u"
  have 1: "step h t u = Inr ?u1"
    using assms
    by (simp add: in_loop_def step_def step_frame_def worker_thread_loop_def
        work_running_def worker_thread_return_def)
  have 2: "step h t ?u1 = Inr (default_do_par_for_return t J ?u1)"
    using assms by (simp add: in_loop_def step_def step_frame_def set_top_def)
  have "left_loop t J rest below u (default_do_par_for_return t J ?u1)"
    using assms
    by (auto simp add: in_loop_def left_loop_def default_do_par_for_return_def pop_frame_def
        set_top_def fresh_def)
  moreover have "alone h t (Suc (Suc 0)) u = Inr (default_do_par_for_return t J ?u1)"
    using alone_Suc[OF 1, of "Suc 0"] alone_Suc[OF 2, of 0] by simp
  ultimately show ?thesis by blast
qed

lemma loop_claim:
  assumes "in_loop t J rest uc f cl mx below i u" and "i < mx"
  shows "\<exists>u'. step h t u = Inr u' \<and>
           t < length (stacks u') \<and> fresh u' \<and>
           stacks u' ! t = Task (Some J) J i (f uc i cl) # rest \<and>
           length (stacks u') = length (stacks u) \<and> n_alloc u' = n_alloc u \<and>
           (\<forall>a. a \<noteq> J \<longrightarrow> heap u' a = heap u a) \<and> returned u' = returned u \<and>
           thread_pool_initialized u' \<and>
           heap u' J = (heap u J)\<lparr>next_idx := i + 1, active_workers := 1\<rparr> \<and>
           jobs (work_queue u') = (if i + 1 < mx then Some J else below)"
  using assms
  by (auto simp add: in_loop_def step_def step_frame_def worker_thread_loop_def
      work_running_def claim_def set_top_def Let_def default_do_task_def fresh_def)

lemma task_done:
  assumes "t < length (stacks u)" and "stacks u ! t = Task (Some J) J i (Return r) # rest"
    and "returned u J = None"
  shows "step h t u = step h t (after_task t (Some J) J i r u)"
  using assms
  by (simp add: step_def step_frame_def after_task_def Let_def set_top_def
      halide_cond_broadcast_def)

lemma task_done_state:
  assumes "t < length (stacks u)" and "stacks u ! t = Task (Some J) J i (Return r) # rest"
    and "returned u J = None" and "fresh u" and "thread_pool_initialized u" and "J < n_alloc u"
    and "heap u J = w\<lparr>next_idx := i + 1, active_workers := 1\<rparr>"
    and "jobs (work_queue u) = (if i + 1 < max_idx w then Some J else next_job w)"
    and "i < max_idx w"
  shows "in_loop t J rest (user_context w) (f_task w) (closure w) (max_idx w) (next_job w) (i + 1)
           (after_task t (Some J) J i r u)"
  using assms
  by (auto simp add: in_loop_def after_task_def Let_def set_top_def halide_cond_broadcast_def
      fresh_def work_running_def)

lemma after_task_kept:
  assumes "t < length (stacks u)"
  shows "length (stacks (after_task t owned J i r u)) = length (stacks u)"
    and "n_alloc (after_task t owned J i r u) = n_alloc u"
    and "a \<noteq> J \<Longrightarrow> heap (after_task t owned J i r u) a = heap u a"
    and "returned (after_task t owned J i r u) = returned u"
  using assms
  by (simp_all add: after_task_def Let_def set_top_def halide_cond_broadcast_def)

lemma finishesE:
  assumes "finishes h t p" and "t < length (stacks s)" and "fresh s"
    and "stacks s ! t = fr # rest" and "prog_of fr = Some p"
  obtains n s' r where "alone h t n s = Inr s'"
    and "stacks s' ! t = set_prog (Return r) fr # rest" and "kept s s'" and "fresh s'"
    and "p = Return r \<or> thread_pool_initialized s'"
proof -
  have "\<exists>n s' r. alone h t n s = Inr s' \<and> stacks s' ! t = set_prog (Return r) fr # rest \<and>
           kept s s' \<and> fresh s' \<and> (p = Return r \<or> thread_pool_initialized s')"
    using assms(1)[unfolded finishes_def, rule_format, of s fr rest] assms(2-5) by simp
  then show ?thesis using that by blast
qed

lemma loop_finishes:
  assumes tasks: "\<And>idx. mn \<le> idx \<Longrightarrow> idx < mx \<Longrightarrow> finishes h t (f uc idx cl)"
  shows "in_loop t J rest uc f cl mx below i u \<Longrightarrow> mn \<le> i \<Longrightarrow>
         \<exists>n u'. alone h t (Suc n) u = Inr u' \<and> left_loop t J rest below u u'"
proof (induction "nat (mx - i)" arbitrary: i u)
  case 0
  then have "i = mx" by (simp add: in_loop_def)
  with 0 show ?case
    using loop_exit[of t J rest uc f cl mx below u h] by blast
next
  case (Suc d)
  then have lt: "i < mx" by linarith
  note loop = Suc.prems(1)
  from loop_claim[OF loop lt, of h] obtain u1 where
    s1: "step h t u = Inr u1" and t1: "t < length (stacks u1)" and f1: "fresh u1"
    and top1: "stacks u1 ! t = Task (Some J) J i (f uc i cl) # rest"
    and len1: "length (stacks u1) = length (stacks u)" and al1: "n_alloc u1 = n_alloc u"
    and hp1: "\<forall>a. a \<noteq> J \<longrightarrow> heap u1 a = heap u a" and ret1: "returned u1 = returned u"
    and init1: "thread_pool_initialized u1"
    and j1: "heap u1 J = (heap u J)\<lparr>next_idx := i + 1, active_workers := 1\<rparr>"
    and q1: "jobs (work_queue u1) = (if i + 1 < mx then Some J else below)"
    by blast
  have "finishes h t (f uc i cl)" using tasks Suc.prems(2) lt by simp
  from finishesE[OF this t1 f1 top1] obtain n2 u2 r where
    r2: "alone h t n2 u1 = Inr u2" and top2: "stacks u2 ! t = Task (Some J) J i (Return r) # rest"
    and k2: "kept u1 u2" and f2: "fresh u2"
    by (metis prog_of.simps(2) set_prog.simps(2))
  have J: "J < n_alloc u" "returned u J = None" using loop by (simp_all add: in_loop_def)
  have t2: "t < length (stacks u2)" using k2 t1 by (simp add: kept_def)
  have J2: "J < n_alloc u2" "returned u2 J = None" "heap u2 J = heap u1 J"
    "thread_pool_initialized u2" "jobs (work_queue u2) = jobs (work_queue u1)"
    using k2 J al1 ret1 init1 by (auto simp add: kept_def)
  let ?u3 = "after_task t (Some J) J i r u2"
  have w: "max_idx (heap u J) = mx" "next_job (heap u J) = below" "f_task (heap u J) = f"
    "user_context (heap u J) = uc" "closure (heap u J) = cl"
    using loop by (simp_all add: in_loop_def)
  have loop3: "in_loop t J rest uc f cl mx below (i + 1) ?u3"
    using task_done_state[OF t2 top2 J2(2) f2 J2(4) J2(1), of "heap u J"]
      J2(3) j1 J2(5) q1 lt w by simp
  have d: "d = nat (mx - (i + 1))" using Suc.hyps(2) by linarith
  from Suc.hyps(1)[OF d loop3] Suc.prems(2) obtain n3 u' where
    r3: "alone h t (Suc n3) ?u3 = Inr u'" and l3: "left_loop t J rest below ?u3 u'"
    by auto
  have "alone h t (Suc n3) u2 = Inr u'"
    using r3 alone_Suc_cong[OF task_done[OF t2 top2 J2(2), of h], of n3] by simp
  then have "alone h t (n2 + Suc n3) u1 = Inr u'"
    using alone_add[OF r2, of "Suc n3"] by simp
  then have run: "alone h t (Suc (n2 + Suc n3)) u = Inr u'"
    using alone_Suc[OF s1, of "n2 + Suc n3"] by simp
  have "left_loop t J rest below u u'"
    using l3 k2 after_task_kept[OF t2, where owned="Some J" and J=J and i=i and r=r] len1 al1 hp1 ret1
    unfolding left_loop_def kept_def
    by (auto simp add: )
  with run show ?case by blast
qed

lemma enter_step:
  assumes "t < length (stacks s)" and "stacks s ! t = fr # rest"
    and "prog_of fr = Some (Par_for uc f mn sz cl k)" and "fresh s" and "0 < sz"
  shows "\<exists>s1 wb. step h t s = Inr s1 \<and> t < length (stacks s1) \<and>
           stacks s1 ! t = Pushed (n_alloc s) wb # fr # rest \<and>
           thread_pool_initialized s1 \<and> n_alloc s1 = Suc (n_alloc s) \<and>
           heap s1 (n_alloc s) = make_job uc f mn sz cl (jobs (work_queue (lazy_init h s))) \<and>
           jobs (work_queue s1) = Some (n_alloc s) \<and> returned s1 = returned s \<and>
           (\<forall>a. a \<noteq> n_alloc s \<longrightarrow> heap s1 a = heap s a) \<and>
           length (stacks s) \<le> length (stacks s1)"
proof -
  have "step h t s = Inr (default_do_par_for_enter h t uc f mn sz cl s)"
    using assms(1-3) by (cases fr) (simp_all add: step_def step_frame_def call_def)
  then show ?thesis
    using assms(1,2)
    by (auto simp add: default_do_par_for_enter_def push_job_def push_frame_def lazy_init_def
        Let_def nth_append)
qed

lemma wake_step:
  assumes "t < length (stacks s)" and "stacks s ! t = Pushed J wb # rest"
  shows "\<exists>s2. step h t s = Inr s2 \<and> t < length (stacks s2) \<and>
           stacks s2 ! t = Enter (Some J) # rest \<and>
           thread_pool_initialized s2 = thread_pool_initialized s \<and> n_alloc s2 = n_alloc s \<and>
           heap s2 = heap s \<and> work_queue s2 = work_queue s \<and> returned s2 = returned s \<and>
           length (stacks s2) = length (stacks s)"
  using assms
  by (simp add: step_def step_frame_def default_do_par_for_wake_def set_top_def
      halide_cond_broadcast_def)

lemma resume_call:
  assumes "prog_of fr = Some (Par_for uc f mn sz cl k)"
  shows "resume v (fr # rest) = set_prog (k v) fr # rest"
  using assms by (cases fr) simp_all

lemma prog_of_set_prog:
  assumes "prog_of fr = Some p"
  shows "prog_of (set_prog p' fr) = Some p'" and "set_prog p'' (set_prog p' fr) = set_prog p'' fr"
  using assms by (cases fr; simp)+

lemma set_prog_same: "prog_of fr = Some p \<Longrightarrow> set_prog p fr = fr"
  by (cases fr) simp_all

lemma wf_prog_finishes: "wf_prog p \<Longrightarrow> finishes h t p"
proof (induction p)
  case (Return r)
  show ?case
    unfolding finishes_def
  proof (intro allI impI)
    fix s fr rest
    assume a: "t < length (stacks s) \<and> fresh s \<and> stacks s ! t = fr # rest \<and>
        prog_of fr = Some (Return r)"
    then have "alone h t 0 s = Inr s \<and> stacks s ! t = set_prog (Return r) fr # rest \<and>
        kept s s \<and> fresh s \<and> (Return r = Return r \<or> thread_pool_initialized s)"
      by (simp add: set_prog_same)
    then show "\<exists>n s' r'. alone h t n s = Inr s' \<and> stacks s' ! t = set_prog (Return r') fr # rest \<and>
        kept s s' \<and> fresh s' \<and> (Return r = Return r' \<or> thread_pool_initialized s')"
      by blast
  qed
next
  case (Shutdown_thread_pool k)
  then show ?case by simp
next
  case (Par_for uc f mn sz cl k)
  have sz: "0 < sz" using Par_for.prems by simp
  have tasks: "finishes h t (f uc idx cl)" if "mn \<le> idx" "idx < mn + sz" for idx
    using Par_for.IH(1)[of "f uc" "f uc idx" "f uc idx cl"] Par_for.prems that by auto
  have conts: "finishes h t (k v)" for v
    using Par_for.IH(2)[of "k v"] Par_for.prems by auto
  show ?case
    unfolding finishes_def
  proof (intro allI impI)
    fix s fr rest
    assume a: "t < length (stacks s) \<and> fresh s \<and> stacks s ! t = fr # rest \<and>
        prog_of fr = Some (Par_for uc f mn sz cl k)"
    then have t: "t < length (stacks s)" and fs: "fresh s" and top: "stacks s ! t = fr # rest"
      and fr: "prog_of fr = Some (Par_for uc f mn sz cl k)" by simp_all
    define J where "J = n_alloc s"
    define below where "below = jobs (work_queue (lazy_init h s))"
    from enter_step[OF t top fr fs sz, of h] obtain s1 wb where
      st1: "step h t s = Inr s1" and t1: "t < length (stacks s1)"
      and top1: "stacks s1 ! t = Pushed J wb # fr # rest"
      and i1: "thread_pool_initialized s1" and al1: "n_alloc s1 = Suc J"
      and hJ: "heap s1 J = make_job uc f mn sz cl below"
      and q1: "jobs (work_queue s1) = Some J" and ret1: "returned s1 = returned s"
      and hp1: "\<forall>a. a \<noteq> J \<longrightarrow> heap s1 a = heap s a"
      and len1: "length (stacks s) \<le> length (stacks s1)"
      unfolding J_def below_def by blast
    from wake_step[OF t1 top1, of h] obtain s2 where
      st2: "step h t s1 = Inr s2" and t2: "t < length (stacks s2)"
      and top2: "stacks s2 ! t = Enter (Some J) # fr # rest"
      and i2: "thread_pool_initialized s2 = thread_pool_initialized s1"
      and al2: "n_alloc s2 = n_alloc s1" and hp2: "heap s2 = heap s1"
      and q2: "work_queue s2 = work_queue s1" and ret2: "returned s2 = returned s1"
      and len2: "length (stacks s2) = length (stacks s1)"
      by blast
    have loop: "in_loop t J (fr # rest) uc f cl (mn + sz) below mn s2"
      using t2 top2 i1 i2 al1 al2 hJ hp2 q1 q2 ret1 ret2 fs sz
      by (simp add: in_loop_def make_job_def fresh_def J_def)
    from loop_finishes[of mn "mn + sz" h t f uc cl J "fr # rest" below mn s2, OF tasks loop]
    obtain n3 u where r3: "alone h t (Suc n3) s2 = Inr u"
      and left: "left_loop t J (fr # rest) below s2 u"
      by auto
    have topu: "stacks u ! t = set_prog (k (exit_status (heap u J))) fr # rest"
      using left resume_call[OF fr] by (simp add: left_loop_def)
    have tu: "t < length (stacks u)" using left t2 by (simp add: left_loop_def)
    have fu: "fresh u" using left by (simp add: left_loop_def)
    from finishesE[OF conts[of "exit_status (heap u J)"] tu fu topu prog_of_set_prog(1)[OF fr]]
    obtain n4 s' r where r4: "alone h t n4 u = Inr s'"
      and top': "stacks s' ! t = set_prog (Return r) (set_prog (k (exit_status (heap u J))) fr) # rest"
      and k4: "kept u s'" and f': "fresh s'"
      by blast
    have run: "alone h t (Suc (Suc (Suc n3 + n4))) s = Inr s'"
      using alone_Suc[OF st1, of "Suc (Suc n3 + n4)"] alone_Suc[OF st2, of "Suc n3 + n4"]
        alone_add[OF r3, of n4] r4 by simp
    have below_s: "thread_pool_initialized s \<Longrightarrow> below = jobs (work_queue s)"
      by (simp add: below_def lazy_init_def)
    have ksu: "kept s u"
      using left len1 len2 al1 al2 hp1 hp2 ret1 ret2 below_s
      unfolding kept_def left_loop_def J_def by auto
    have "kept s s'" using ksu k4 by (rule kept_trans)
    moreover have "stacks s' ! t = set_prog (Return r) fr # rest"
      using top' prog_of_set_prog(2)[OF fr] by simp
    moreover have "thread_pool_initialized s'"
      using left k4 by (simp add: left_loop_def kept_def)
    ultimately show "\<exists>n s' r'. alone h t n s = Inr s' \<and>
        stacks s' ! t = set_prog (Return r') fr # rest \<and> kept s s' \<and> fresh s' \<and>
        (Par_for uc f mn sz cl k = Return r' \<or> thread_pool_initialized s')"
      using run f' by blast
  qed
qed

lemma reachable_fresh:
  assumes "reachable h n0 clients s"
  shows "fresh s"
  using jobs_invD(2)[OF reachable_jobs_inv[OF assms]] by (simp add: fresh_def)

lemma submitter_alone_finishes:
  assumes "wf_prog p" and "t < length (stacks s)" and "fresh s"
    and "stacks s ! t = fr # rest" and "prog_of fr = Some p"
  shows "\<exists>n s' r. alone h t n s = Inr s' \<and> stacks s' ! t = set_prog (Return r) fr # rest \<and>
           kept s s' \<and> (p = Return r \<or> thread_pool_initialized s')"
  using finishesE[OF wf_prog_finishes[OF assms(1), of h t] assms(2-5)] by metis
subsection \<open>Tasks are claimed in order, once each\<close>

lemma chain_le: "x \<in> set (chain hp job) \<Longrightarrow> x \<le> job"
proof (induction hp job rule: chain.induct)
  case (1 hp job)
  show ?case
  proof (cases "next_job (hp job)")
    case None
    then show ?thesis using "1.prems" by (simp add: chain.simps[of hp job])
  next
    case (Some below)
    show ?thesis
    proof (cases "below < job")
      case True
      then have "x = job \<or> x \<in> set (chain hp below)"
        using "1.prems" Some by (simp add: chain.simps[of hp job])
      then show ?thesis using "1.IH"[OF Some True] True by auto
    next
      case False
      then show ?thesis using "1.prems" Some by (simp add: chain.simps[of hp job])
    qed
  qed
qed

lemma chain_cong:
  "(\<And>x. x \<le> job \<Longrightarrow> next_job (hp' x) = next_job (hp x)) \<Longrightarrow> chain hp' job = chain hp job"
proof (induction hp job rule: chain.induct)
  case (1 hp job)
  show ?case
  proof (cases "next_job (hp job)")
    case None
    then show ?thesis using "1.prems"[of job] by (simp add: chain.simps[of _ job])
  next
    case (Some below)
    show ?thesis
    proof (cases "below < job")
      case True
      have "chain hp' below = chain hp below"
        using "1.IH"[OF Some True] "1.prems" True by simp
      then show ?thesis
        using Some True "1.prems"[of job] by (simp add: chain.simps[of _ job])
    next
      case False
      then show ?thesis using Some "1.prems"[of job] by (simp add: chain.simps[of _ job])
    qed
  qed
qed

lemma chain_link:
  assumes "next_job (hp job) = Some below" and "below < job"
  shows "chain hp job = job # chain hp below" and "job \<notin> set (chain hp below)"
  using assms chain_le[of job hp below] by (auto simp add: chain.simps[of hp job])

lemma chain_bottom: "next_job (hp job) = None \<Longrightarrow> chain hp job = [job]"
  by (simp add: chain.simps[of hp job])

lemma order_invI:
  assumes "\<And>job mn sz. (job, mn, sz) \<in> set (submitted s) \<Longrightarrow>
        job < n_alloc s \<and> max_idx (heap s job) = mn + sz \<and> mn \<le> next_idx (heap s job) \<and>
        claimed s job = [mn .. next_idx (heap s job) - 1]"
    and "\<And>job idx. (job, idx) \<in> set (invoked s) \<Longrightarrow> job < n_alloc s"
    and "\<And>job. next_idx (heap s job) \<le> max_idx (heap s job)"
    and "\<And>job. job \<in> set (job_stack s) \<Longrightarrow> next_idx (heap s job) < max_idx (heap s job)"
    and "\<And>job below. next_job (heap s job) = Some below \<Longrightarrow> below < job"
  shows "order_inv s"
  using assms unfolding order_inv_def by blast

lemma order_invD:
  assumes "order_inv s"
  shows "(job, mn, sz) \<in> set (submitted s) \<Longrightarrow>
        job < n_alloc s \<and> max_idx (heap s job) = mn + sz \<and> mn \<le> next_idx (heap s job) \<and>
        claimed s job = [mn .. next_idx (heap s job) - 1]"
    and "(job, idx) \<in> set (invoked s) \<Longrightarrow> job < n_alloc s"
    and "next_idx (heap s job) \<le> max_idx (heap s job)"
    and "job \<in> set (job_stack s) \<Longrightarrow> next_idx (heap s job) < max_idx (heap s job)"
    and "next_job (heap s job) = Some below \<Longrightarrow> below < job"
  using assms unfolding order_inv_def by blast+

lemma order_inv_initial: "order_inv (initial n0 clients)"
  by (simp add: order_inv_def initial_def zero_work_def job_stack_def)

lemma job_stack_cong:
  assumes "jobs (work_queue s') = jobs (work_queue s)"
    and "\<And>x. next_job (heap s' x) = next_job (heap s x)"
  shows "job_stack s' = job_stack s"
  using assms by (auto simp add: job_stack_def intro: chain_cong split: option.splits)

lemma order_inv_cong:
  assumes "order_inv s"
    and "submitted s' = submitted s" and "invoked s' = invoked s" and "n_alloc s' = n_alloc s"
    and "jobs (work_queue s') = jobs (work_queue s)"
    and "\<And>x. next_job (heap s' x) = next_job (heap s x)"
    and "\<And>x. next_idx (heap s' x) = next_idx (heap s x)"
    and "\<And>x. max_idx (heap s' x) = max_idx (heap s x)"
  shows "order_inv s'"
proof -
  have "job_stack s' = job_stack s" using assms(5,6) by (rule job_stack_cong)
  then show ?thesis
    using assms(1) unfolding order_inv_def claimed_def assms(2-4,6-8) by simp
qed

lemma order_inv_claim:
  assumes inv: "order_inv s" and jinv: "jobs_inv s" and top: "jobs (work_queue s) = Some J"
  shows "order_inv (claim t owned J s)"
proof -
  let ?s' = "claim t owned J s"
  let ?next = "next_idx (heap s J)"
  have sel: "submitted ?s' = submitted s" "invoked ?s' = invoked s @ [(J, ?next)]"
    "n_alloc ?s' = n_alloc s"
    "\<And>x. next_job (heap ?s' x) = next_job (heap s x)"
    "\<And>x. max_idx (heap ?s' x) = max_idx (heap s x)"
    "\<And>x. next_idx (heap ?s' x) = (if x = J then ?next + 1 else next_idx (heap s x))"
    "jobs (work_queue ?s') = (if ?next + 1 = max_idx (heap s J) then next_job (heap s J) else Some J)"
    using top by (simp_all add: claim_def Let_def set_top_def)
  have cl: "claimed ?s' x = claimed s x @ (if x = J then [?next] else [])" for x
    by (simp add: claimed_def sel)
  have J: "J < n_alloc s" using jobs_invD(5)[OF jinv top] .
  have onstack: "J \<in> set (job_stack s)"
    using top by (simp add: job_stack_def chain.simps[of "heap s" J])
  have lt: "?next < max_idx (heap s J)" using order_invD(4)[OF inv onstack] .
  have sub: "set (job_stack ?s') \<subseteq> set (job_stack s) \<and>
      (?next + 1 = max_idx (heap s J) \<longrightarrow> J \<notin> set (job_stack ?s'))"
  proof (cases "?next + 1 = max_idx (heap s J)")
    case False
    then have "job_stack ?s' = job_stack s"
      using top by (intro job_stack_cong) (simp_all add: sel)
    with False show ?thesis by simp
  next
    case True
    show ?thesis
    proof (cases "next_job (heap s J)")
      case None
      with True show ?thesis by (simp add: job_stack_def sel)
    next
      case (Some below)
      have b: "below < J" using order_invD(5)[OF inv Some] .
      have "job_stack ?s' = chain (heap ?s') below"
        using True Some by (simp add: job_stack_def sel)
      also have "\<dots> = chain (heap s) below" by (rule chain_cong) (simp add: sel)
      finally show ?thesis
        using chain_link[of "heap s" J below, OF Some b] top True by (auto simp add: job_stack_def)
    qed
  qed
  show ?thesis
  proof (rule order_invI, goal_cases)
    case (1 job mn sz)
    then have e: "(job, mn, sz) \<in> set (submitted s)" by (simp add: sel)
    note old = order_invD(1)[OF inv e]
    show ?case
    proof (cases "job = J")
      case True
      have "[mn .. ?next] = [mn .. ?next - 1] @ [?next]"
        using old True by (intro upto_rec2) simp
      then show ?thesis using old True by (simp add: sel cl)
    next
      case False
      then show ?thesis using old by (simp add: sel cl)
    qed
  next
    case (2 job idx)
    then show ?case using order_invD(2)[OF inv, of job idx] J by (auto simp add: sel)
  next
    case (3 job)
    show ?case using order_invD(3)[OF inv, of job] lt by (simp add: sel)
  next
    case (4 job)
    then have "job \<in> set (job_stack s)" using sub by blast
    from order_invD(4)[OF inv this] show ?case
      using sub 4 lt by (cases "job = J") (auto simp add: sel)
  next
    case (5 job below)
    then show ?case using order_invD(5)[OF inv, of job below] by (simp add: sel)
  qed
qed

lemma order_inv_lazy_init:
  assumes inv: "order_inv s"
  shows "order_inv (lazy_init h s)"
proof (cases "thread_pool_initialized s")
  case True
  with inv show ?thesis by (simp add: lazy_init_def)
next
  case False
  have sel: "submitted (lazy_init h s) = submitted s" "invoked (lazy_init h s) = invoked s"
    "n_alloc (lazy_init h s) = n_alloc s" "heap (lazy_init h s) = heap s"
    "job_stack (lazy_init h s) = []"
    using False by (simp_all add: lazy_init_def Let_def job_stack_def)
  show ?thesis
    using inv unfolding order_inv_def claimed_def sel by simp
qed

lemma order_inv_push_job:
  assumes inv: "order_inv s" and jinv: "jobs_inv s" and sz: "0 < sz"
  shows "order_inv (push_job uc f mn sz cl s)"
proof -
  let ?s' = "push_job uc f mn sz cl s"
  let ?J = "n_alloc s"
  have sel: "submitted ?s' = submitted s @ [(?J, mn, sz)]" "invoked ?s' = invoked s"
    "n_alloc ?s' = Suc ?J" "jobs (work_queue ?s') = Some ?J"
    "\<And>x. x \<noteq> ?J \<Longrightarrow> heap ?s' x = heap s x"
    "next_idx (heap ?s' ?J) = mn" "max_idx (heap ?s' ?J) = mn + sz"
    "next_job (heap ?s' ?J) = jobs (work_queue s)"
    by (simp_all add: push_job_def Let_def make_job_def)
  have noinv: "claimed s ?J = []"
    using order_invD(2)[OF inv] by (fastforce simp add: claimed_def filter_empty_conv)
  have cl: "claimed ?s' x = claimed s x" for x by (simp add: claimed_def sel)
  have below: "b < ?J" if "jobs (work_queue s) = Some b" for b
    using jobs_invD(5)[OF jinv that] .
  have stack: "set (job_stack ?s') = insert ?J (set (job_stack s))"
  proof (cases "jobs (work_queue s)")
    case None
    then show ?thesis by (simp add: job_stack_def sel chain_bottom)
  next
    case (Some b)
    have "chain (heap ?s') b = chain (heap s) b"
      using below[OF Some] by (intro chain_cong) (simp add: sel)
    moreover have "chain (heap ?s') ?J = ?J # chain (heap ?s') b"
      using Some below[OF Some] by (intro chain_link(1)) (simp_all add: sel)
    ultimately show ?thesis using Some by (simp add: job_stack_def sel)
  qed
  have old: "x < ?J" if "x \<in> set (job_stack s)" for x
  proof -
    from that obtain b where b: "jobs (work_queue s) = Some b" and "x \<in> set (chain (heap s) b)"
      by (cases "jobs (work_queue s)") (auto simp add: job_stack_def)
    then show ?thesis using chain_le[of x "heap s" b] below[OF b] by simp
  qed
  show ?thesis
  proof (rule order_invI, goal_cases)
    case (1 job mn' sz')
    then consider "(job, mn', sz') \<in> set (submitted s)" | "job = ?J" "mn' = mn" "sz' = sz"
      by (auto simp add: sel)
    then show ?case
    proof cases
      case 1
      note o = order_invD(1)[OF inv 1]
      then have "job \<noteq> ?J" by simp
      with o show ?thesis by (simp add: sel cl)
    next
      case 2
      then show ?thesis using noinv by (simp add: sel cl)
    qed
  next
    case (2 job idx)
    then show ?case using order_invD(2)[OF inv, of job idx] by (simp add: sel)
  next
    case (3 job)
    show ?case using order_invD(3)[OF inv, of job] sz by (cases "job = ?J") (simp_all add: sel)
  next
    case (4 job)
    then consider "job = ?J" | "job \<in> set (job_stack s)" using stack by auto
    then show ?case
    proof cases
      case 1
      then show ?thesis using sz by (simp add: sel)
    next
      case 2
      with old have "job \<noteq> ?J" by auto
      then show ?thesis using order_invD(4)[OF inv 2] by (simp add: sel)
    qed
  next
    case (5 job b)
    then show ?case
      using order_invD(5)[OF inv, of job b] below by (cases "job = ?J") (simp_all add: sel)
  qed
qed

lemma order_inv_stacks_update [simp]: "order_inv (s\<lparr>stacks := x\<rparr>) = order_inv s"
  by (simp add: order_inv_def claimed_def job_stack_def)

lemma order_inv_enter:
  assumes inv: "order_inv s" and jinv: "jobs_inv s" and sz: "0 < sz"
  shows "order_inv (default_do_par_for_enter h t uc f mn sz cl s)"
  using order_inv_push_job[OF order_inv_lazy_init[OF inv] jobs_inv_lazy_init[OF jinv] sz]
  by (simp add: default_do_par_for_enter_def Let_def push_frame_def)

lemma order_inv_after_task:
  assumes "order_inv s"
  shows "order_inv (after_task t owned job idx r s)"
  using assms
  by (rule order_inv_cong)
    (simp_all add: after_task_def Let_def set_top_def halide_cond_broadcast_def)

lemma order_inv_after_wait:
  assumes "order_inv s"
  shows "order_inv (after_wait t c owned s)"
  using assms by (rule order_inv_cong) (simp_all add: after_wait_def set_top_def)

lemma order_inv_loop:
  assumes inv: "order_inv s" and jinv: "jobs_inv s" and step: "worker_thread_loop t owned s = Inr s'"
  shows "order_inv s'"
proof (cases "\<exists>J. s' = claim t owned J s \<and> jobs (work_queue s) = Some J")
  case True
  then show ?thesis using order_inv_claim[OF inv jinv] by blast
next
  case False
  show ?thesis
    using inv
  proof (rule order_inv_cong)
    show "submitted s' = submitted s" "invoked s' = invoked s" "n_alloc s' = n_alloc s"
      "jobs (work_queue s') = jobs (work_queue s)"
      using step False
      by (auto simp add: worker_thread_loop_def worker_thread_return_def pop_frame_def
          set_top_def split: if_splits option.splits)
    show "next_job (heap s' x) = next_job (heap s x)" "next_idx (heap s' x) = next_idx (heap s x)"
      "max_idx (heap s' x) = max_idx (heap s x)" for x
      using step False
      by (auto simp add: worker_thread_loop_def worker_thread_return_def pop_frame_def
          set_top_def split: if_splits option.splits)
  qed
qed

lemma order_inv_call:
  assumes inv: "order_inv s" and jinv: "jobs_inv s" and step: "call h t p s = Inr s'"
    and ok: "sizes_pos s'"
  shows "order_inv s'"
proof (cases p)
  case (Return r)
  with step show ?thesis by (simp add: call_def)
next
  case (Par_for uc f mn sz cl k)
  with step have s': "s' = default_do_par_for_enter h t uc f mn sz cl s" by (simp add: call_def)
  with ok have "0 < sz" by (simp add: sizes_pos_def)
  then show ?thesis unfolding s' by (rule order_inv_enter[OF inv jinv])
next
  case (Shutdown_thread_pool k)
  with step have s': "s' = halide_shutdown_thread_pool_enter t s" by (simp add: call_def)
  show ?thesis using inv unfolding s'
    by (rule order_inv_cong)
      (simp_all add: halide_shutdown_thread_pool_enter_def return_to_def push_frame_def
        halide_cond_broadcast_def)
qed

lemma order_inv_step:
  assumes inv: "order_inv s" and jinv: "jobs_inv s" and step: "step h t s = Inr s'"
    and ok: "sizes_pos s'"
  shows "order_inv s'"
proof -
  from step obtain fr rest where t: "t < length (stacks s)" and top: "stacks s ! t = fr # rest"
    and fr: "step_frame h t fr s = Inr s'"
    by (auto simp add: step_def split: if_splits list.splits)
  show ?thesis
  proof (cases fr)
    case (User p)
    with fr show ?thesis using order_inv_call[OF inv jinv _ ok] by (simp add: step_frame_def)
  next
    case (Task owned job idx p)
    show ?thesis
    proof (cases p)
      case (Return r)
      with fr Task have loop: "worker_thread_loop t owned (after_task t owned job idx r s) = Inr s'"
        and alive: "returned s job = None"
        by (simp_all add: step_frame_def split: if_splits)
      show ?thesis
        using order_inv_loop[OF order_inv_after_task[OF inv]
            jobs_inv_after_task[OF jinv t top[unfolded Task] alive] loop] .
    qed (use fr Task order_inv_call[OF inv jinv _ ok] in \<open>simp_all add: step_frame_def\<close>)
  next
    case (Pushed job wb)
    with fr have s': "s' = default_do_par_for_wake t job wb s" by (simp add: step_frame_def)
    show ?thesis using inv unfolding s'
      by (rule order_inv_cong)
        (simp_all add: default_do_par_for_wake_def set_top_def halide_cond_broadcast_def)
  next
    case (Enter owned)
    with fr show ?thesis using order_inv_loop[OF inv jinv] by (simp add: step_frame_def)
  next
    case (Wait c owned)
    with fr show ?thesis by (simp add: step_frame_def)
  next
    case (Woken c owned)
    with fr have loop: "worker_thread_loop t owned (after_wait t c owned s) = Inr s'"
      by (simp add: step_frame_def)
    show ?thesis
      using order_inv_loop[OF order_inv_after_wait[OF inv]
          jobs_inv_after_wait[OF jinv t top[unfolded Woken]] loop] .
  next
    case (Leave job)
    with fr have s': "s' = default_do_par_for_return t job s" by (simp add: step_frame_def)
    show ?thesis using inv unfolding s'
      by (rule order_inv_cong) (simp_all add: default_do_par_for_return_def pop_frame_def)
  next
    case Join
    with fr have s': "s' = pop_frame t 0 (tidy_up s)"
      by (simp add: step_frame_def halide_shutdown_thread_pool_join_def split: if_splits)
    show ?thesis using inv unfolding s'
      by (rule order_inv_cong) (simp_all add: pop_frame_def)
  qed
qed

lemma sizes_pos_step:
  assumes "step h t s = Inr s'" and "sizes_pos s'"
  shows "sizes_pos s"
  using submitted_step[OF assms(1)] assms(2) by (auto simp add: sizes_pos_def)

lemma reachable_order_inv:
  assumes "reachable h n0 clients s" and "sizes_pos s"
  shows "order_inv s"
  using assms
proof (induction rule: reachable.induct)
  case start
  show ?case by (rule order_inv_initial)
next
  case (step s t s')
  from step.hyps(2) step.prems have "sizes_pos s" by (rule sizes_pos_step)
  then have "order_inv s" by (rule step.IH)
  then show ?case
    using reachable_jobs_inv[OF step.hyps(1)] step.hyps(2) step.prems by (rule order_inv_step)
next
  case (spurious s t s')
  from spurious.hyps(2) obtain c owned where s': "s' = set_top t (Woken c owned) s"
    by (auto simp add: spurious_wakeup_def split: if_splits list.splits frame.splits)
  with spurious.prems have "sizes_pos s" by (simp add: sizes_pos_def set_top_def)
  then have "order_inv s" by (rule spurious.IH)
  then show ?case unfolding s' by (simp add: set_top_def)
qed

subsection \<open>A job whose owner has left the loop stays idle\<close>

lemma leaves_resume [simp]:
  "length (filter (leaves job) (resume v fs)) = length (filter (leaves job) fs)"
  by (cases "(v, fs)" rule: resume.cases) simp_all

lemma leaves_wake [simp]:
  "count_frames (leaves job) (map (wake cs) ss) = count_frames (leaves job) ss"
  by (rule count_frames_wake) simp

lemma leaves_owns: "leaves job fr \<Longrightarrow> owns job fr"
  by (cases fr) simp_all

lemma leaving_nonneg [simp]: "0 \<le> leaving s job"
  by (simp add: leaving_def)

lemma leaving_owned:
  assumes inv: "jobs_inv s" and pos: "0 < leaving s job"
  shows "job < n_alloc s \<and> returned s job = None"
proof -
  from pos have "count_frames (leaves job) (stacks s) \<noteq> 0" by (simp add: leaving_def)
  then obtain fs fr where "fs \<in> set (stacks s)" and fr: "fr \<in> set fs" and l: "leaves job fr"
    by (auto simp add: count_frames_zero_iff)
  then obtain t where "t < length (stacks s)" and "fr \<in> set (stacks s ! t)"
    by (auto simp add: in_set_conv_nth)
  then show ?thesis using owned_frame_live[OF inv _ _ leaves_owns[OF l]] by blast
qed

lemma idle_invD:
  assumes "idle_inv s" and "0 < leaving s job \<or> returned s job \<noteq> None"
  shows "\<not> work_running (heap s job)"
  using assms unfolding idle_inv_def by blast

lemma busy_not_leaving:
  assumes "idle_inv s" and "work_running (heap s job)"
  shows "leaving s job = 0" and "returned s job = None"
proof -
  have "\<not> (0 < leaving s job \<or> returned s job \<noteq> None)"
    using idle_invD[OF assms(1), of job] assms(2) by blast
  moreover have "0 \<le> leaving s job" by simp
  ultimately show "leaving s job = 0" and "returned s job = None" by simp_all
qed

lemma idle_inv_initial: "idle_inv (initial n0 clients)"
  by (simp add: idle_inv_def initial_def leaving_def zero_work_def work_running_def)

lemma idle_inv_cong:
  assumes "idle_inv s"
    and "\<And>j. leaving s' j = leaving s j" and "returned s' = returned s" and "heap s' = heap s"
  shows "idle_inv s'"
  using assms(1) unfolding idle_inv_def assms(2-4) .

lemma idle_inv_heap:
  assumes inv: "idle_inv s"
    and l: "\<And>j. leaving s' j = leaving s j" and r: "returned s' = returned s"
    and h: "\<And>j. j \<noteq> job \<Longrightarrow> heap s' j = heap s j"
    and q: "leaving s job = 0" "returned s job = None"
  shows "idle_inv s'"
  unfolding idle_inv_def
proof (intro allI impI)
  fix j assume "0 < leaving s' j \<or> returned s' j \<noteq> None"
  then have a: "0 < leaving s j \<or> returned s j \<noteq> None" by (simp add: l r)
  with q have "j \<noteq> job" by auto
  with idle_invD[OF inv a] show "\<not> work_running (heap s' j)" by (simp add: h)
qed

lemma idle_inv_set_top:
  assumes "idle_inv s" and "t < length (stacks s)" and "stacks s ! t = fr # rest"
    and "\<And>j. leaves j fr' = leaves j fr"
  shows "idle_inv (set_top t fr' s)"
  using assms(1)
  by (rule idle_inv_cong) (simp_all add: set_top_def leaving_def assms(2-4))

lemma idle_inv_after_task:
  assumes inv: "idle_inv s" and jinv: "jobs_inv s" and t: "t < length (stacks s)"
    and top: "stacks s ! t = Task owned job idx p # rest"
  shows "idle_inv (after_task t owned job idx r s)"
proof -
  have "0 < executing s job"
    unfolding executing_def using t by (rule count_frames_pos[where fr="Task owned job idx p"])
      (simp_all add: top)
  then have "work_running (heap s job)"
    using jobs_invD(1)[OF jinv, of job] by (simp add: work_running_def)
  note q = busy_not_leaving[OF inv this]
  show ?thesis
    using inv
  proof (rule idle_inv_heap[where job=job])
    show "leaving (after_task t owned job idx r s) j = leaving s j" for j
      using t top
      by (simp add: after_task_def Let_def set_top_def halide_cond_broadcast_def leaving_def)
    show "returned (after_task t owned job idx r s) = returned s"
      by (simp add: after_task_def Let_def set_top_def halide_cond_broadcast_def)
    show "heap (after_task t owned job idx r s) j = heap s j" if "j \<noteq> job" for j
      using that by (simp add: after_task_def Let_def set_top_def halide_cond_broadcast_def)
  qed (rule q)+
qed

lemma idle_inv_after_wait:
  assumes "idle_inv s" and "t < length (stacks s)" and "stacks s ! t = Woken c owned # rest"
  shows "idle_inv (after_wait t c owned s)"
  using assms(1)
  by (rule idle_inv_cong) (simp_all add: after_wait_def set_top_def leaving_def assms(2,3))

lemma idle_inv_claim:
  assumes inv: "idle_inv s" and oinv: "order_inv s" and t: "t < length (stacks s)"
    and top: "stacks s ! t = Enter owned # rest" and job: "jobs (work_queue s) = Some J"
  shows "idle_inv (claim t owned J s)"
proof -
  have "J \<in> set (job_stack s)"
    using job by (simp add: job_stack_def chain.simps[of "heap s" J])
  from order_invD(4)[OF oinv this] have "work_running (heap s J)"
    by (simp add: work_running_def)
  note q = busy_not_leaving[OF inv this]
  show ?thesis
    using inv
  proof (rule idle_inv_heap[where job=J])
    show "leaving (claim t owned J s) j = leaving s j" for j
      using t top by (simp add: claim_def Let_def set_top_def leaving_def)
    show "returned (claim t owned J s) = returned s"
      by (simp add: claim_def Let_def set_top_def)
    show "heap (claim t owned J s) j = heap s j" if "j \<noteq> J" for j
      using that by (simp add: claim_def Let_def set_top_def)
  qed (rule q)+
qed

lemma idle_inv_return:
  assumes inv: "idle_inv s" and t: "t < length (stacks s)"
    and top: "stacks s ! t = Enter owned # rest"
    and fin: "\<And>oj. owned = Some oj \<Longrightarrow> \<not> work_running (heap s oj)"
  shows "idle_inv (worker_thread_return t owned s)"
proof (cases owned)
  case None
  show ?thesis
    using inv
    by (rule idle_inv_cong) (simp_all add: worker_thread_return_def None leaving_def t top)
next
  case (Some oj)
  have l: "leaving (worker_thread_return t owned s) j = leaving s j + (if j = oj then 1 else 0)"
    for j
    using t top by (simp add: worker_thread_return_def Some set_top_def leaving_def)
  have sel: "returned (worker_thread_return t owned s) = returned s"
    "heap (worker_thread_return t owned s) = heap s"
    by (simp_all add: worker_thread_return_def Some set_top_def)
  show ?thesis
    unfolding idle_inv_def sel
  proof (intro allI impI)
    fix j assume a: "0 < leaving (worker_thread_return t owned s) j \<or> returned s j \<noteq> None"
    show "\<not> work_running (heap s j)"
    proof (cases "j = oj")
      case True
      then show ?thesis using fin[OF Some] by simp
    next
      case False
      with a have "0 < leaving s j \<or> returned s j \<noteq> None" by (simp add: l)
      then show ?thesis by (rule idle_invD[OF inv])
    qed
  qed
qed

lemma idle_inv_loop:
  assumes inv: "idle_inv s" and oinv: "order_inv s" and t: "t < length (stacks s)"
    and top: "stacks s ! t = Enter owned # rest"
    and step: "worker_thread_loop t owned s = Inr s'"
  shows "idle_inv s'"
proof (cases "case owned of Some oj \<Rightarrow> work_running (heap s oj)
                          | None \<Rightarrow> queue_running (work_queue s)")
  case False
  with step have s': "s' = worker_thread_return t owned s"
    by (simp add: worker_thread_loop_def)
  show ?thesis unfolding s'
    using False by (intro idle_inv_return[OF inv t top]) simp
next
  case run: True
  show ?thesis
  proof (cases "jobs (work_queue s)")
    case None
    with run step consider c where "s' = set_top t (Wait c owned) s"
      | c q where "s' = set_top t (Wait c owned) (s\<lparr>work_queue := q\<rparr>)"
      by (auto simp add: worker_thread_loop_def split: if_splits)
    then show ?thesis
    proof cases
      case 1
      show ?thesis using inv unfolding 1
        by (rule idle_inv_cong) (simp_all add: set_top_def leaving_def t top)
    next
      case 2
      show ?thesis using inv unfolding 2
        by (rule idle_inv_cong) (simp_all add: set_top_def leaving_def t top)
    qed
  next
    case (Some job)
    with run step have s': "s' = claim t owned job s"
      by (auto simp add: worker_thread_loop_def split: if_splits)
    show ?thesis unfolding s' by (rule idle_inv_claim[OF inv oinv t top Some])
  qed
qed

lemma idle_inv_enter:
  assumes inv: "idle_inv s" and jinv: "jobs_inv s" and t: "t < length (stacks s)"
  shows "idle_inv (default_do_par_for_enter h t uc f mn sz cl s)"
proof -
  have "\<not> 0 < leaving s (n_alloc s)"
    using leaving_owned[OF jinv, of "n_alloc s"] by auto
  moreover have "0 \<le> leaving s (n_alloc s)" by simp
  ultimately have q: "leaving s (n_alloc s) = 0" by linarith
  have r: "returned s (n_alloc s) = None" using jobs_invD(2)[OF jinv, of "n_alloc s"] by simp
  show ?thesis
    using inv
  proof (rule idle_inv_heap[where job="n_alloc s"])
    show "leaving (default_do_par_for_enter h t uc f mn sz cl s) j = leaving s j" for j
      using t
      by (simp add: default_do_par_for_enter_def push_job_def push_frame_def lazy_init_def
          Let_def leaving_def nth_append)
    show "returned (default_do_par_for_enter h t uc f mn sz cl s) = returned s"
      by (simp add: default_do_par_for_enter_def push_job_def push_frame_def lazy_init_def
          Let_def)
    show "heap (default_do_par_for_enter h t uc f mn sz cl s) j = heap s j" if "j \<noteq> n_alloc s"
      for j
      using that
      by (simp add: default_do_par_for_enter_def push_job_def push_frame_def lazy_init_def
          Let_def)
  qed (rule q r)+
qed

lemma idle_inv_call:
  assumes inv: "idle_inv s" and jinv: "jobs_inv s" and t: "t < length (stacks s)"
    and step: "call h t p s = Inr s'"
  shows "idle_inv s'"
proof (cases p)
  case (Return r)
  with step show ?thesis by (simp add: call_def)
next
  case (Par_for uc f mn sz cl k)
  with step have s': "s' = default_do_par_for_enter h t uc f mn sz cl s" by (simp add: call_def)
  show ?thesis unfolding s' by (rule idle_inv_enter[OF inv jinv t])
next
  case (Shutdown_thread_pool k)
  with step have s': "s' = halide_shutdown_thread_pool_enter t s" by (simp add: call_def)
  show ?thesis using inv unfolding s'
    by (rule idle_inv_cong)
      (simp_all add: halide_shutdown_thread_pool_enter_def return_to_def push_frame_def
        halide_cond_broadcast_def leaving_def t)
qed

lemma idle_inv_par_for_return:
  assumes inv: "idle_inv s" and t: "t < length (stacks s)"
    and top: "stacks s ! t = Leave job # rest"
  shows "idle_inv (default_do_par_for_return t job s)"
proof -
  let ?s' = "default_do_par_for_return t job s"
  have "0 < leaving s job"
    unfolding leaving_def using t by (rule count_frames_pos[where fr="Leave job"])
      (simp_all add: top)
  then have idle: "\<not> work_running (heap s job)" using idle_invD[OF inv] by blast
  have l: "leaving ?s' j = leaving s j - (if j = job then 1 else 0)" for j
    using t top by (simp add: default_do_par_for_return_def pop_frame_def leaving_def)
  have sel: "heap ?s' = heap s"
    "\<And>j. returned ?s' j = (if j = job then Some (exit_status (heap s j)) else returned s j)"
    by (simp_all add: default_do_par_for_return_def pop_frame_def)
  show ?thesis
    unfolding idle_inv_def sel(1)
  proof (intro allI impI)
    fix j assume a: "0 < leaving ?s' j \<or> returned ?s' j \<noteq> None"
    show "\<not> work_running (heap s j)"
    proof (cases "j = job")
      case True
      then show ?thesis using idle by simp
    next
      case False
      with a have "0 < leaving s j \<or> returned s j \<noteq> None" by (simp add: l sel(2))
      then show ?thesis by (rule idle_invD[OF inv])
    qed
  qed
qed

lemma idle_inv_step:
  assumes inv: "idle_inv s" and jinv: "jobs_inv s" and oinv: "order_inv s"
    and step: "step h t s = Inr s'"
  shows "idle_inv s'"
proof -
  from step obtain fr rest where t: "t < length (stacks s)" and top: "stacks s ! t = fr # rest"
    and fr: "step_frame h t fr s = Inr s'"
    by (auto simp add: step_def split: if_splits list.splits)
  show ?thesis
  proof (cases fr)
    case (User p)
    with fr show ?thesis using idle_inv_call[OF inv jinv t] by (simp add: step_frame_def)
  next
    case (Task owned job idx p)
    show ?thesis
    proof (cases p)
      case (Return r)
      with fr Task have loop: "worker_thread_loop t owned (after_task t owned job idx r s) = Inr s'"
        by (simp add: step_frame_def split: if_splits)
      note top' = top[unfolded Task]
      have "t < length (stacks (after_task t owned job idx r s))"
        "stacks (after_task t owned job idx r s) ! t = Enter owned # rest"
        using after_task_effect(11,12)[OF t top'] t by simp_all
      then show ?thesis
        by (rule idle_inv_loop[OF idle_inv_after_task[OF inv jinv t top']
              order_inv_after_task[OF oinv] _ _ loop])
    qed (use fr Task idle_inv_call[OF inv jinv t] in \<open>simp_all add: step_frame_def\<close>)
  next
    case (Pushed job wb)
    with fr have s': "s' = default_do_par_for_wake t job wb s" by (simp add: step_frame_def)
    show ?thesis using inv unfolding s'
      by (rule idle_inv_cong)
        (simp_all add: default_do_par_for_wake_def set_top_def halide_cond_broadcast_def
          leaving_def t top Pushed)
  next
    case (Enter owned)
    with fr show ?thesis using idle_inv_loop[OF inv oinv t top[unfolded Enter]]
      by (simp add: step_frame_def)
  next
    case (Wait c owned)
    with fr show ?thesis by (simp add: step_frame_def)
  next
    case (Woken c owned)
    with fr have loop: "worker_thread_loop t owned (after_wait t c owned s) = Inr s'"
      by (simp add: step_frame_def)
    note top' = top[unfolded Woken]
    have "t < length (stacks (after_wait t c owned s))"
      "stacks (after_wait t c owned s) ! t = Enter owned # rest"
      using t top' by (simp_all add: after_wait_def set_top_def)
    then show ?thesis
      by (rule idle_inv_loop[OF idle_inv_after_wait[OF inv t top']
            order_inv_after_wait[OF oinv] _ _ loop])
  next
    case (Leave job)
    with fr show ?thesis using idle_inv_par_for_return[OF inv t top[unfolded Leave]]
      by (simp add: step_frame_def)
  next
    case Join
    with fr have s': "s' = pop_frame t 0 (tidy_up s)"
      by (simp add: step_frame_def halide_shutdown_thread_pool_join_def split: if_splits)
    show ?thesis using inv unfolding s'
      by (rule idle_inv_cong) (simp_all add: pop_frame_def leaving_def t top Join)
  qed
qed

lemma reachable_idle_inv:
  assumes "reachable h n0 clients s" and "sizes_pos s"
  shows "idle_inv s"
  using assms
proof (induction rule: reachable.induct)
  case start
  show ?case by (rule idle_inv_initial)
next
  case (step s t s')
  from step.hyps(2) step.prems have pos: "sizes_pos s" by (rule sizes_pos_step)
  then have "idle_inv s" by (rule step.IH)
  then show ?case
    using reachable_jobs_inv[OF step.hyps(1)] reachable_order_inv[OF step.hyps(1) pos]
      step.hyps(2)
    by (rule idle_inv_step)
next
  case (spurious s t s')
  from spurious.hyps(2) obtain c owned rest where t: "t < length (stacks s)"
    and top: "stacks s ! t = Wait c owned # rest" and s': "s' = set_top t (Woken c owned) s"
    by (auto simp add: spurious_wakeup_def split: if_splits list.splits frame.splits)
  with spurious.prems have "sizes_pos s" by (simp add: sizes_pos_def set_top_def)
  then have "idle_inv s" by (rule spurious.IH)
  then show ?case unfolding s' by (rule idle_inv_set_top[OF _ t top]) simp
qed

lemma returned_job_idle:
  assumes "reachable h n0 clients s" and "sizes_pos s"
    and "0 < leaving s job \<or> returned s job \<noteq> None"
  shows "\<not> work_running (heap s job)"
    and "\<forall>fs \<in> set (stacks s). \<forall>fr \<in> set fs. \<not> runs job fr"
proof -
  note inv = reachable_jobs_inv[OF assms(1)]
  show idle: "\<not> work_running (heap s job)"
    using idle_invD[OF reachable_idle_inv[OF assms(1,2)] assms(3)] .
  then have "executing s job \<le> 0"
    using jobs_invD(1)[OF inv, of job] by (simp add: work_running_def)
  moreover have "0 \<le> executing s job" by (simp add: executing_def)
  ultimately have "executing s job = 0" by linarith
  then have "count_frames (runs job) (stacks s) = 0" by (simp add: executing_def)
  then show "\<forall>fs \<in> set (stacks s). \<forall>fr \<in> set fs. \<not> runs job fr"
    by (simp add: count_frames_zero_iff)
qed

subsection \<open>A job with tasks left is on the stack\<close>

lemma job_stack_top: "jobs (work_queue s) = Some J \<Longrightarrow> J \<in> set (job_stack s)"
  by (simp add: job_stack_def chain.simps[of "heap s" J])

lemma job_stack_claim:
  assumes oinv: "order_inv s" and top: "jobs (work_queue s) = Some J"
  shows "set (job_stack s) =
     (if next_idx (heap s J) + 1 = max_idx (heap s J)
      then insert J (set (job_stack (claim t owned J s)))
      else set (job_stack (claim t owned J s)))"
proof -
  let ?s' = "claim t owned J s"
  have sel: "\<And>x. next_job (heap ?s' x) = next_job (heap s x)"
    "jobs (work_queue ?s') =
       (if next_idx (heap s J) + 1 = max_idx (heap s J) then next_job (heap s J) else Some J)"
    using top by (simp_all add: claim_def Let_def set_top_def)
  show ?thesis
  proof (cases "next_idx (heap s J) + 1 = max_idx (heap s J)")
    case False
    then have "job_stack ?s' = job_stack s"
      using top by (intro job_stack_cong) (simp_all add: sel)
    with False show ?thesis by simp
  next
    case True
    show ?thesis
    proof (cases "next_job (heap s J)")
      case None
      with True top show ?thesis by (simp add: job_stack_def sel chain_bottom)
    next
      case (Some below)
      have b: "below < J" using order_invD(5)[OF oinv Some] .
      have "job_stack ?s' = chain (heap ?s') below"
        using True Some by (simp add: job_stack_def sel)
      also have "\<dots> = chain (heap s) below" by (rule chain_cong) (simp add: sel)
      finally show ?thesis
        using chain_link(1)[of "heap s" J below, OF Some b] top True by (simp add: job_stack_def)
    qed
  qed
qed

lemma job_stack_push:
  assumes jinv: "jobs_inv s"
  shows "set (job_stack (push_job uc f mn sz cl s)) = insert (n_alloc s) (set (job_stack s))"
proof -
  let ?s' = "push_job uc f mn sz cl s"
  let ?J = "n_alloc s"
  have sel: "jobs (work_queue ?s') = Some ?J"
    "\<And>x. x \<noteq> ?J \<Longrightarrow> heap ?s' x = heap s x"
    "next_job (heap ?s' ?J) = jobs (work_queue s)"
    by (simp_all add: push_job_def Let_def make_job_def)
  show ?thesis
  proof (cases "jobs (work_queue s)")
    case None
    then show ?thesis by (simp add: job_stack_def sel chain_bottom)
  next
    case (Some b)
    have below: "b < ?J" using jobs_invD(5)[OF jinv Some] .
    have "chain (heap ?s') b = chain (heap s) b"
      using below by (intro chain_cong) (simp add: sel)
    moreover have "chain (heap ?s') ?J = ?J # chain (heap ?s') b"
      using Some below by (intro chain_link(1)) (simp_all add: sel)
    ultimately show ?thesis using Some by (simp add: job_stack_def sel)
  qed
qed

lemma joining_resume [simp]:
  "length (filter joining (resume v fs)) = length (filter joining fs)"
  by (cases "(v, fs)" rule: resume.cases) simp_all

lemma joining_wake [simp]:
  "count_frames joining (map (wake cs) ss) = count_frames joining ss"
  by (rule count_frames_wake) simp

lemma link_inv_initial: "link_inv (initial n0 clients)"
  by (simp add: link_inv_def initial_def)

lemma link_inv_cong:
  assumes "link_inv s"
    and "shutdowns s' = shutdowns s"
    and "count_frames joining (stacks s') = count_frames joining (stacks s)"
    and "n_alloc s' = n_alloc s" and "thread_pool_initialized s' = thread_pool_initialized s"
    and "\<And>x. next_idx (heap s' x) = next_idx (heap s x)"
    and "\<And>x. max_idx (heap s' x) = max_idx (heap s x)"
    and "jobs (work_queue s') = jobs (work_queue s)"
    and "\<And>x. next_job (heap s' x) = next_job (heap s x)"
  shows "link_inv s'"
proof -
  have "job_stack s' = job_stack s" using assms(8,9) by (rule job_stack_cong)
  then show ?thesis
    using assms(1) unfolding link_inv_def assms(2-7) by simp
qed

lemma link_inv_shut:
  assumes "shutdowns s \<noteq> 0"
  shows "link_inv s"
  using assms by (simp add: link_inv_def)

lemma link_inv_claim:
  assumes inv: "link_inv s" and oinv: "order_inv s" and t: "t < length (stacks s)"
    and top: "stacks s ! t = Enter owned # rest" and job: "jobs (work_queue s) = Some J"
  shows "link_inv (claim t owned J s)"
proof (cases "shutdowns s = 0")
  case False
  then show ?thesis by (intro link_inv_shut) (simp add: claim_def Let_def set_top_def)
next
  case True
  let ?s' = "claim t owned J s"
  have sel: "n_alloc ?s' = n_alloc s" "thread_pool_initialized ?s' = thread_pool_initialized s"
    "count_frames joining (stacks ?s') = count_frames joining (stacks s)"
    "\<And>x. next_idx (heap ?s' x) = (if x = J then next_idx (heap s J) + 1 else next_idx (heap s x))"
    "\<And>x. max_idx (heap ?s' x) = max_idx (heap s x)"
    using t top by (simp_all add: claim_def Let_def set_top_def)
  note st = job_stack_claim[OF oinv job, of t owned]
  have old: "count_frames joining (stacks s) = 0" "0 < n_alloc s \<longrightarrow> thread_pool_initialized s"
    "\<And>x. x < n_alloc s \<Longrightarrow> next_idx (heap s x) < max_idx (heap s x) \<Longrightarrow> x \<in> set (job_stack s)"
    using inv True by (simp_all add: link_inv_def)
  have "x \<in> set (job_stack ?s')"
    if x: "x < n_alloc s" and lt: "next_idx (heap ?s' x) < max_idx (heap ?s' x)" for x
  proof (cases "x = J")
    case True
    with lt have "next_idx (heap s J) + 1 \<noteq> max_idx (heap s J)" by (simp add: sel)
    with st job_stack_top[OF job] True show ?thesis by simp
  next
    case False
    with lt have "next_idx (heap s x) < max_idx (heap s x)" by (simp add: sel)
    from old(3)[OF x this] st False show ?thesis by (auto split: if_splits)
  qed
  then show ?thesis
    unfolding link_inv_def sel(1-3) using old(1,2) by simp
qed

lemma link_inv_enter:
  assumes inv: "link_inv s" and jinv: "jobs_inv s" and t: "t < length (stacks s)"
  shows "link_inv (default_do_par_for_enter h t uc f mn sz cl s)"
proof (cases "shutdowns s = 0")
  case False
  then show ?thesis
    by (intro link_inv_shut)
      (simp add: default_do_par_for_enter_def push_job_def push_frame_def lazy_init_def Let_def)
next
  case True
  let ?s1 = "lazy_init h s"
  let ?s2 = "push_job uc f mn sz cl ?s1"
  let ?s' = "default_do_par_for_enter h t uc f mn sz cl s"
  have old: "count_frames joining (stacks s) = 0" "0 < n_alloc s \<longrightarrow> thread_pool_initialized s"
    "\<And>x. x < n_alloc s \<Longrightarrow> next_idx (heap s x) < max_idx (heap s x) \<Longrightarrow> x \<in> set (job_stack s)"
    using inv True by (simp_all add: link_inv_def)
  have sel: "shutdowns ?s' = shutdowns s" "n_alloc ?s' = Suc (n_alloc s)"
    "thread_pool_initialized ?s'"
    "count_frames joining (stacks ?s') = count_frames joining (stacks s)"
    "\<And>x. x \<noteq> n_alloc s \<Longrightarrow> heap ?s' x = heap s x"
    using t
    by (simp_all add: default_do_par_for_enter_def push_job_def push_frame_def lazy_init_def
        Let_def nth_append)
  have "job_stack ?s' = job_stack ?s2"
    by (rule job_stack_cong)
      (simp_all add: default_do_par_for_enter_def Let_def push_frame_def)
  then have st: "set (job_stack ?s') = insert (n_alloc s) (set (job_stack ?s1))"
    using job_stack_push[OF jobs_inv_lazy_init[OF jinv], of uc f mn sz cl h]
    by (simp add: lazy_init_effect)
  have "x \<in> set (job_stack ?s')"
    if x: "x < Suc (n_alloc s)" and lt: "next_idx (heap ?s' x) < max_idx (heap ?s' x)" for x
  proof (cases "x = n_alloc s")
    case True
    then show ?thesis using st by simp
  next
    case False
    with x have x': "x < n_alloc s" by simp
    with old(2) have "thread_pool_initialized s" by simp
    then have "?s1 = s" by (simp add: lazy_init_def)
    moreover have "x \<in> set (job_stack s)" using old(3)[OF x'] lt False by (simp add: sel)
    ultimately show ?thesis using st by simp
  qed
  then show ?thesis
    unfolding link_inv_def sel(1,2,4) using old(1) sel(3) by simp
qed

lemma link_inv_call:
  assumes inv: "link_inv s" and jinv: "jobs_inv s" and t: "t < length (stacks s)"
    and step: "call h t p s = Inr s'"
  shows "link_inv s'"
proof (cases p)
  case (Return r)
  with step show ?thesis by (simp add: call_def)
next
  case (Par_for uc f mn sz cl k)
  with step have s': "s' = default_do_par_for_enter h t uc f mn sz cl s" by (simp add: call_def)
  show ?thesis unfolding s' by (rule link_inv_enter[OF inv jinv t])
next
  case (Shutdown_thread_pool k)
  with step have s': "s' = halide_shutdown_thread_pool_enter t s" by (simp add: call_def)
  show ?thesis
  proof (cases "thread_pool_initialized s")
    case True
    then show ?thesis unfolding s'
      by (intro link_inv_shut)
        (simp add: halide_shutdown_thread_pool_enter_def push_frame_def
          halide_cond_broadcast_def)
  next
    case False
    show ?thesis using inv unfolding s'
      by (rule link_inv_cong)
        (simp_all add: halide_shutdown_thread_pool_enter_def return_to_def False t)
  qed
qed

lemma link_inv_loop:
  assumes inv: "link_inv s" and oinv: "order_inv s" and t: "t < length (stacks s)"
    and top: "stacks s ! t = Enter owned # rest"
    and step: "worker_thread_loop t owned s = Inr s'"
  shows "link_inv s'"
proof (cases "\<exists>J. s' = claim t owned J s \<and> jobs (work_queue s) = Some J")
  case True
  then show ?thesis using link_inv_claim[OF inv oinv t top] by blast
next
  case False
  show ?thesis
    using inv
  proof (rule link_inv_cong)
    show "shutdowns s' = shutdowns s" "n_alloc s' = n_alloc s"
      "thread_pool_initialized s' = thread_pool_initialized s"
      "jobs (work_queue s') = jobs (work_queue s)"
      using step False
      by (auto simp add: worker_thread_loop_def worker_thread_return_def set_top_def
          split: if_splits option.splits)
    show "count_frames joining (stacks s') = count_frames joining (stacks s)"
      using step False t top
      by (auto simp add: worker_thread_loop_def worker_thread_return_def set_top_def
          split: if_splits option.splits)
    show "next_job (heap s' x) = next_job (heap s x)" "next_idx (heap s' x) = next_idx (heap s x)"
      "max_idx (heap s' x) = max_idx (heap s x)" for x
      using step False
      by (auto simp add: worker_thread_loop_def worker_thread_return_def set_top_def
          split: if_splits option.splits)
  qed
qed

lemma link_inv_after_task:
  assumes "link_inv s" and "t < length (stacks s)"
    and "stacks s ! t = Task owned job idx p # rest"
  shows "link_inv (after_task t owned job idx r s)"
  using assms(1)
  by (rule link_inv_cong)
    (simp_all add: after_task_def Let_def set_top_def halide_cond_broadcast_def assms(2,3))

lemma link_inv_after_wait:
  assumes "link_inv s" and "t < length (stacks s)" and "stacks s ! t = Woken c owned # rest"
  shows "link_inv (after_wait t c owned s)"
  using assms(1)
  by (rule link_inv_cong) (simp_all add: after_wait_def set_top_def assms(2,3))

lemma link_inv_step:
  assumes inv: "link_inv s" and jinv: "jobs_inv s" and oinv: "order_inv s"
    and step: "step h t s = Inr s'"
  shows "link_inv s'"
proof -
  from step obtain fr rest where t: "t < length (stacks s)" and top: "stacks s ! t = fr # rest"
    and fr: "step_frame h t fr s = Inr s'"
    by (auto simp add: step_def split: if_splits list.splits)
  show ?thesis
  proof (cases fr)
    case (User p)
    with fr show ?thesis using link_inv_call[OF inv jinv t] by (simp add: step_frame_def)
  next
    case (Task owned job idx p)
    show ?thesis
    proof (cases p)
      case (Return r)
      with fr Task have loop: "worker_thread_loop t owned (after_task t owned job idx r s) = Inr s'"
        by (simp add: step_frame_def split: if_splits)
      note top' = top[unfolded Task]
      have "t < length (stacks (after_task t owned job idx r s))"
        "stacks (after_task t owned job idx r s) ! t = Enter owned # rest"
        using after_task_effect(11,12)[OF t top'] t by simp_all
      then show ?thesis
        by (rule link_inv_loop[OF link_inv_after_task[OF inv t top']
              order_inv_after_task[OF oinv] _ _ loop])
    qed (use fr Task link_inv_call[OF inv jinv t] in \<open>simp_all add: step_frame_def\<close>)
  next
    case (Pushed job wb)
    with fr have s': "s' = default_do_par_for_wake t job wb s" by (simp add: step_frame_def)
    show ?thesis using inv unfolding s'
      by (rule link_inv_cong)
        (simp_all add: default_do_par_for_wake_def set_top_def halide_cond_broadcast_def
          t top Pushed)
  next
    case (Enter owned)
    with fr show ?thesis using link_inv_loop[OF inv oinv t top[unfolded Enter]]
      by (simp add: step_frame_def)
  next
    case (Wait c owned)
    with fr show ?thesis by (simp add: step_frame_def)
  next
    case (Woken c owned)
    with fr have loop: "worker_thread_loop t owned (after_wait t c owned s) = Inr s'"
      by (simp add: step_frame_def)
    note top' = top[unfolded Woken]
    have "t < length (stacks (after_wait t c owned s))"
      "stacks (after_wait t c owned s) ! t = Enter owned # rest"
      using t top' by (simp_all add: after_wait_def set_top_def)
    then show ?thesis
      by (rule link_inv_loop[OF link_inv_after_wait[OF inv t top']
            order_inv_after_wait[OF oinv] _ _ loop])
  next
    case (Leave job)
    with fr have s': "s' = default_do_par_for_return t job s" by (simp add: step_frame_def)
    show ?thesis using inv unfolding s'
      by (rule link_inv_cong)
        (simp_all add: default_do_par_for_return_def pop_frame_def t top Leave)
  next
    case Join
    with fr have s': "s' = pop_frame t 0 (tidy_up s)"
      by (simp add: step_frame_def halide_shutdown_thread_pool_join_def split: if_splits)
    have "0 < count_frames joining (stacks s)"
      using t by (rule count_frames_pos[where fr=Join]) (simp_all add: top Join)
    with inv have "shutdowns s \<noteq> 0" by (auto simp add: link_inv_def)
    then show ?thesis unfolding s' by (intro link_inv_shut) (simp add: pop_frame_def)
  qed
qed

lemma reachable_link_inv:
  assumes "reachable h n0 clients s" and "sizes_pos s"
  shows "link_inv s"
  using assms
proof (induction rule: reachable.induct)
  case start
  show ?case by (rule link_inv_initial)
next
  case (step s t s')
  from step.hyps(2) step.prems have pos: "sizes_pos s" by (rule sizes_pos_step)
  then have "link_inv s" by (rule step.IH)
  then show ?case
    using reachable_jobs_inv[OF step.hyps(1)] reachable_order_inv[OF step.hyps(1) pos]
      step.hyps(2)
    by (rule link_inv_step)
next
  case (spurious s t s')
  from spurious.hyps(2) obtain c owned rest where t: "t < length (stacks s)"
    and top: "stacks s ! t = Wait c owned # rest" and s': "s' = set_top t (Woken c owned) s"
    by (auto simp add: spurious_wakeup_def split: if_splits list.splits frame.splits)
  with spurious.prems have "sizes_pos s" by (simp add: sizes_pos_def set_top_def)
  then have "link_inv s" by (rule spurious.IH)
  then show ?case unfolding s'
    by (rule link_inv_cong) (simp_all add: set_top_def t top)
qed

subsection \<open>Every task that was started has finished or is running\<close>

lemma runs_at_resume [simp]:
  "length (filter (runs_at job idx) (resume v fs)) = length (filter (runs_at job idx) fs)"
  by (cases "(v, fs)" rule: resume.cases) simp_all

lemma runs_at_wake [simp]:
  "count_frames (runs_at job idx) (map (wake cs) ss) = count_frames (runs_at job idx) ss"
  by (rule count_frames_wake) simp

lemma runs_at_runs: "runs_at job idx fr \<Longrightarrow> runs job fr"
  by (cases fr) simp_all

lemma flow_inv_initial: "flow_inv (initial n0 clients)"
  by (simp add: flow_inv_def initial_def started_def finished_def)

lemma flow_inv_cong:
  assumes "flow_inv s" and "invoked s' = invoked s" and "completed s' = completed s"
    and "\<And>job idx. count_frames (runs_at job idx) (stacks s') =
           count_frames (runs_at job idx) (stacks s)"
  shows "flow_inv s'"
  using assms(1) unfolding flow_inv_def started_def finished_def assms(2-4) .

lemma flow_inv_claim:
  assumes "flow_inv s" and "t < length (stacks s)" and "stacks s ! t = Enter owned # rest"
  shows "flow_inv (claim t owned J s)"
  using assms
  by (auto simp add: flow_inv_def started_def finished_def claim_def Let_def set_top_def)

lemma flow_inv_after_task:
  assumes "flow_inv s" and "t < length (stacks s)"
    and "stacks s ! t = Task owned job idx p # rest"
  shows "flow_inv (after_task t owned job idx r s)"
  using assms
  by (auto simp add: flow_inv_def started_def finished_def after_task_def Let_def set_top_def
      halide_cond_broadcast_def)

lemma flow_inv_after_wait:
  assumes "flow_inv s" and "t < length (stacks s)" and "stacks s ! t = Woken c owned # rest"
  shows "flow_inv (after_wait t c owned s)"
  using assms(1)
  by (rule flow_inv_cong) (simp_all add: after_wait_def set_top_def assms(2,3))

lemma flow_inv_loop:
  assumes inv: "flow_inv s" and t: "t < length (stacks s)"
    and top: "stacks s ! t = Enter owned # rest"
    and step: "worker_thread_loop t owned s = Inr s'"
  shows "flow_inv s'"
proof (cases "\<exists>J. s' = claim t owned J s")
  case True
  then show ?thesis using flow_inv_claim[OF inv t top] by blast
next
  case False
  show ?thesis
    using inv
  proof (rule flow_inv_cong)
    show "invoked s' = invoked s" "completed s' = completed s"
      using step False
      by (auto simp add: worker_thread_loop_def worker_thread_return_def set_top_def
          split: if_splits option.splits)
    show "count_frames (runs_at job idx) (stacks s') = count_frames (runs_at job idx) (stacks s)"
      for job idx
      using step False t top
      by (auto simp add: worker_thread_loop_def worker_thread_return_def set_top_def
          split: if_splits option.splits)
  qed
qed

lemma flow_inv_call:
  assumes inv: "flow_inv s" and t: "t < length (stacks s)" and step: "call h t p s = Inr s'"
  shows "flow_inv s'"
proof (cases p)
  case (Return r)
  with step show ?thesis by (simp add: call_def)
next
  case (Par_for uc f mn sz cl k)
  with step have s': "s' = default_do_par_for_enter h t uc f mn sz cl s" by (simp add: call_def)
  have "count_frames (runs_at job idx) (stacks s') = count_frames (runs_at job idx) (stacks s)"
    for job idx
    using t unfolding s'
    by (simp add: default_do_par_for_enter_def push_job_def push_frame_def lazy_init_def
        Let_def nth_append)
  moreover have "invoked s' = invoked s" "completed s' = completed s"
    by (simp_all add: s' default_do_par_for_enter_def push_job_def push_frame_def lazy_init_def
        Let_def)
  ultimately show ?thesis using inv by (intro flow_inv_cong[of s s']) simp_all
next
  case (Shutdown_thread_pool k)
  with step have s': "s' = halide_shutdown_thread_pool_enter t s" by (simp add: call_def)
  show ?thesis using inv unfolding s'
    by (rule flow_inv_cong)
      (simp_all add: halide_shutdown_thread_pool_enter_def return_to_def push_frame_def
        halide_cond_broadcast_def t)
qed

lemma flow_inv_step:
  assumes inv: "flow_inv s" and step: "step h t s = Inr s'"
  shows "flow_inv s'"
proof -
  from step obtain fr rest where t: "t < length (stacks s)" and top: "stacks s ! t = fr # rest"
    and fr: "step_frame h t fr s = Inr s'"
    by (auto simp add: step_def split: if_splits list.splits)
  show ?thesis
  proof (cases fr)
    case (User p)
    with fr show ?thesis using flow_inv_call[OF inv t] by (simp add: step_frame_def)
  next
    case (Task owned job idx p)
    show ?thesis
    proof (cases p)
      case (Return r)
      with fr Task have loop: "worker_thread_loop t owned (after_task t owned job idx r s) = Inr s'"
        by (simp add: step_frame_def split: if_splits)
      note top' = top[unfolded Task]
      have "t < length (stacks (after_task t owned job idx r s))"
        "stacks (after_task t owned job idx r s) ! t = Enter owned # rest"
        using after_task_effect(11,12)[OF t top'] t by simp_all
      then show ?thesis
        by (rule flow_inv_loop[OF flow_inv_after_task[OF inv t top'] _ _ loop])
    qed (use fr Task flow_inv_call[OF inv t] in \<open>simp_all add: step_frame_def\<close>)
  next
    case (Pushed job wb)
    with fr have s': "s' = default_do_par_for_wake t job wb s" by (simp add: step_frame_def)
    show ?thesis using inv unfolding s'
      by (rule flow_inv_cong)
        (simp_all add: default_do_par_for_wake_def set_top_def halide_cond_broadcast_def
          t top Pushed)
  next
    case (Enter owned)
    with fr show ?thesis using flow_inv_loop[OF inv t top[unfolded Enter]]
      by (simp add: step_frame_def)
  next
    case (Wait c owned)
    with fr show ?thesis by (simp add: step_frame_def)
  next
    case (Woken c owned)
    with fr have loop: "worker_thread_loop t owned (after_wait t c owned s) = Inr s'"
      by (simp add: step_frame_def)
    note top' = top[unfolded Woken]
    have "t < length (stacks (after_wait t c owned s))"
      "stacks (after_wait t c owned s) ! t = Enter owned # rest"
      using t top' by (simp_all add: after_wait_def set_top_def)
    then show ?thesis
      by (rule flow_inv_loop[OF flow_inv_after_wait[OF inv t top'] _ _ loop])
  next
    case (Leave job)
    with fr have s': "s' = default_do_par_for_return t job s" by (simp add: step_frame_def)
    show ?thesis using inv unfolding s'
      by (rule flow_inv_cong)
        (simp_all add: default_do_par_for_return_def pop_frame_def t top Leave)
  next
    case Join
    with fr have s': "s' = pop_frame t 0 (tidy_up s)"
      by (simp add: step_frame_def halide_shutdown_thread_pool_join_def split: if_splits)
    show ?thesis using inv unfolding s'
      by (rule flow_inv_cong) (simp_all add: pop_frame_def t top Join)
  qed
qed

lemma reachable_flow_inv:
  assumes "reachable h n0 clients s"
  shows "flow_inv s"
  using assms
proof (induction rule: reachable.induct)
  case start
  show ?case by (rule flow_inv_initial)
next
  case (step s t s')
  then show ?case using flow_inv_step by blast
next
  case (spurious s t s')
  from spurious.hyps(2) obtain c owned rest where t: "t < length (stacks s)"
    and top: "stacks s ! t = Wait c owned # rest" and s': "s' = set_top t (Woken c owned) s"
    by (auto simp add: spurious_wakeup_def split: if_splits list.splits frame.splits)
  show ?case using spurious.IH unfolding s'
    by (rule flow_inv_cong) (simp_all add: set_top_def t top)
qed

lemma started_claimed:
  "started s job idx = length (filter (\<lambda>i. i = idx) (claimed s job))"
proof -
  have "length (filter (\<lambda>e. e = (job, idx)) xs) =
      length (filter (\<lambda>i. i = idx) (map snd (filter (\<lambda>(j, i). j = job) xs)))" for xs
    by (induction xs) auto
  then show ?thesis by (simp add: started_def claimed_def)
qed

lemma upto_count: "length (filter (\<lambda>i. i = idx) [a .. b]) = (if a \<le> idx \<and> idx \<le> b then 1 else 0)"
proof -
  have "length (filter (\<lambda>i. i = idx) [a .. b]) = card ({i. i = idx} \<inter> set [a .. b])"
    by (rule distinct_length_filter) simp
  also have "{i. i = idx} \<inter> set [a .. b] = (if a \<le> idx \<and> idx \<le> b then {idx} else {})"
    by auto
  finally show ?thesis by simp
qed

lemma returned_job_finished:
  assumes reach: "reachable h n0 clients s" and pos: "sizes_pos s"
    and q: "0 < leaving s job \<or> returned s job \<noteq> None"
  shows "finished s job idx = started s job idx"
proof -
  have "\<forall>fs \<in> set (stacks s). \<forall>fr \<in> set fs. \<not> runs_at job idx fr"
    using returned_job_idle(2)[OF reach pos q] runs_at_runs by blast
  then have "count_frames (runs_at job idx) (stacks s) = 0"
    by (simp add: count_frames_zero_iff)
  moreover have "int (started s job idx) =
      int (finished s job idx) + count_frames (runs_at job idx) (stacks s)"
    using reachable_flow_inv[OF reach] by (simp add: flow_inv_def)
  ultimately show ?thesis by simp
qed

lemma invoked_completed:
  assumes "finished s job idx = started s job idx" and "(job, idx) \<in> set (invoked s)"
  shows "\<exists>x. (job, idx, x) \<in> set (completed s)"
proof -
  have "filter (\<lambda>e. e = (job, idx)) (invoked s) \<noteq> []"
    using assms(2) by (auto simp add: filter_empty_conv)
  then have "filter (\<lambda>(j, i, x). j = job \<and> i = idx) (completed s) \<noteq> []"
    using assms(1) by (auto simp add: finished_def started_def)
  then obtain j i x where "(j, i, x) \<in> set (completed s)" and "j = job \<and> i = idx"
    by (fastforce simp add: filter_empty_conv)
  then show ?thesis by blast
qed

section \<open>The claims\<close>

lemma failed_state_run:
  "run host2 [0, 0, 0, 0, 0] (initial 1 [Par_for 0 bad_task 5 1 0 Return]) = Inr failed_state"
  by (simp add: failed_state_def run_defs host2_def bad_task_def)

lemma failed_state_reachable: "reachable host2 1 [Par_for 0 bad_task 5 1 0 Return] failed_state"
  by (rule reachable_run[OF reachable.start failed_state_run])

lemma b_team_state_run:
  "run host2 [0, 0, 0, 1] (initial 0 [Par_for 0 ok_task 0 1 0 Return]) = Inr b_team_state"
  by (simp add: b_team_state_def run_defs host2_def ok_task_def)

lemma b_team_state_reachable: "reachable host2 0 [Par_for 0 ok_task 0 1 0 Return] b_team_state"
  by (rule reachable_run[OF reachable.start b_team_state_run])

lemma empty_job_state_run:
  "run host2 [0] (initial 0 [Par_for 0 ok_task 0 0 0 Return]) = Inr empty_job_state"
  by (simp add: empty_job_state_def run_defs host2_def ok_task_def)

lemma empty_job_state_reachable:
  "reachable host2 0 [Par_for 0 ok_task 0 0 0 Return] empty_job_state"
  by (rule reachable_run[OF reachable.start empty_job_state_run])

text \<open>
  \<^bold>\<open>C2\<close> (fails for \<open>size = 0\<close>). The return of line 219 hands the exit status of the
  job to the caller of \<^verbatim>\<open>default_do_par_for\<close>, be it user code or a task. \<^verbatim>\<open>worker_thread\<close>
  writes only non-zero results to \<^verbatim>\<open>exit_status\<close>: an invocation returning zero leaves a
  recorded failure in place. In every reachable state of a run whose submissions so far
  all had \<open>size > 0\<close>: once an activation has returned \<open>r\<close>, every invocation that was
  started for its job has finished and no thread is inside a task of the job; and if one
  of these invocations returned a non-zero status, then \<open>r\<close> is non-zero and is the status
  of one of the job's failing invocations. But \<^verbatim>\<open>par_for (0, 0)\<close> of a task that returns 7,
  on a pool of two threads: the submitter leaves the loop, the spawned worker claims from
  the empty job, the submitter returns 0 to its caller, and the task that was invoked for
  the job returns 7; the worker's next step uses the work record of the activation that
  has returned.
\<close>

theorem failure_is_reported:
  "(t < length (stacks s0) \<and> stacks s0 ! t = Leave job0 # User (Par_for uc f mn sz cl k) # rest
    \<longrightarrow> step h t s0 =
          Inr (s0\<lparr>returned := (returned s0)(job0 \<mapsto> exit_status (heap s0 job0)),
                  stacks := (stacks s0)[t := User (k (exit_status (heap s0 job0))) # rest]\<rparr>)) \<and>
   (t < length (stacks s0) \<and>
    stacks s0 ! t = Leave job0 # Task owned job1 idx1 (Par_for uc f mn sz cl k) # rest
    \<longrightarrow> step h t s0 =
          Inr (s0\<lparr>returned := (returned s0)(job0 \<mapsto> exit_status (heap s0 job0)),
                  stacks := (stacks s0)
                    [t := Task owned job1 idx1 (k (exit_status (heap s0 job0))) # rest]\<rparr>)) \<and>
   exit_status (heap (after_task t owned job' idx' result s') job') =
     (if result \<noteq> 0 then result else exit_status (heap s' job')) \<and>
   (reachable h n0 clients s \<and> (\<forall>(job, mn, sz) \<in> set (submitted s). 0 < sz) \<and>
    returned s job = Some r
    \<longrightarrow> (\<forall>idx. (job, idx) \<in> set (invoked s) \<longrightarrow> (\<exists>x. (job, idx, x) \<in> set (completed s))) \<and>
        (\<forall>fs \<in> set (stacks s). \<forall>fr \<in> set fs. \<not> runs job fr) \<and>
        (\<forall>idx status. (job, idx, status) \<in> set (completed s) \<and> status \<noteq> 0
           \<longrightarrow> r \<noteq> 0 \<and> (\<exists>i. (job, i, r) \<in> set (completed s)))) \<and>
   (\<exists>s. run host2 [0, 0, 0, 1, 0] (initial 0 [Par_for 0 bad_task 0 0 0 Return]) = Inr s \<and>
        submitted s = [(0, 0, 0)] \<and> returned s 0 = Some 0 \<and> completed s = [] \<and>
        stacks s = [[User (Return 0)], [Task None 0 0 (Return 7)]]) \<and>
   run host2 [0, 0, 0, 1, 0, 1] (initial 0 [Par_for 0 bad_task 0 0 0 Return]) =
     Inl (Dangling_job 0)"
proof (intro conjI)
  show "t < length (stacks s0) \<and>
    stacks s0 ! t = Leave job0 # User (Par_for uc f mn sz cl k) # rest
    \<longrightarrow> step h t s0 =
          Inr (s0\<lparr>returned := (returned s0)(job0 \<mapsto> exit_status (heap s0 job0)),
                  stacks := (stacks s0)[t := User (k (exit_status (heap s0 job0))) # rest]\<rparr>)"
    by (simp add: step_def step_frame_def default_do_par_for_return_def pop_frame_def)
  show "t < length (stacks s0) \<and>
    stacks s0 ! t = Leave job0 # Task owned job1 idx1 (Par_for uc f mn sz cl k) # rest
    \<longrightarrow> step h t s0 =
          Inr (s0\<lparr>returned := (returned s0)(job0 \<mapsto> exit_status (heap s0 job0)),
                  stacks := (stacks s0)
                    [t := Task owned job1 idx1 (k (exit_status (heap s0 job0))) # rest]\<rparr>)"
    by (simp add: step_def step_frame_def default_do_par_for_return_def pop_frame_def)
  show "exit_status (heap (after_task t owned job' idx' result s') job') =
     (if result \<noteq> 0 then result else exit_status (heap s' job'))"
    by (simp add: after_task_def Let_def set_top_def halide_cond_broadcast_def)
  show "reachable h n0 clients s \<and> (\<forall>(job, mn, sz) \<in> set (submitted s). 0 < sz) \<and>
    returned s job = Some r
    \<longrightarrow> (\<forall>idx. (job, idx) \<in> set (invoked s) \<longrightarrow> (\<exists>x. (job, idx, x) \<in> set (completed s))) \<and>
        (\<forall>fs \<in> set (stacks s). \<forall>fr \<in> set fs. \<not> runs job fr) \<and>
        (\<forall>idx status. (job, idx, status) \<in> set (completed s) \<and> status \<noteq> 0
           \<longrightarrow> r \<noteq> 0 \<and> (\<exists>i. (job, i, r) \<in> set (completed s)))"
  proof (intro impI conjI allI)
    assume a: "reachable h n0 clients s \<and> (\<forall>(job, mn, sz) \<in> set (submitted s). 0 < sz) \<and>
      returned s job = Some r"
    then have reach: "reachable h n0 clients s" and pos: "sizes_pos s"
      and ret: "returned s job = Some r"
      and q: "0 < leaving s job \<or> returned s job \<noteq> None"
      by (simp_all add: sizes_pos_def)
    show "\<forall>fs \<in> set (stacks s). \<forall>fr \<in> set fs. \<not> runs job fr"
      using returned_job_idle(2)[OF reach pos q] .
    {
      fix idx assume "(job, idx) \<in> set (invoked s)"
      then show "\<exists>x. (job, idx, x) \<in> set (completed s)"
        using invoked_completed[OF returned_job_finished[OF reach pos q]] by simp
    }
    {
      fix idx status
      assume c: "(job, idx, status) \<in> set (completed s) \<and> status \<noteq> 0"
      then have "\<exists>x. failed_with s job x" by (auto simp add: failed_with_def)
      moreover have "if \<exists>x. failed_with s job x
          then failed_with s job (exit_status (heap s job)) else exit_status (heap s job) = 0"
        using reachable_status_inv[OF reach] by (simp add: status_inv_def)
      ultimately have "failed_with s job (exit_status (heap s job))" by simp
      moreover have "r = exit_status (heap s job)"
        using jobs_invD(8)[OF reachable_jobs_inv[OF reach] ret] .
      ultimately show "r \<noteq> 0" and "\<exists>i. (job, i, r) \<in> set (completed s)"
        by (auto simp add: failed_with_def)
    }
  qed
  show "\<exists>s. run host2 [0, 0, 0, 1, 0] (initial 0 [Par_for 0 bad_task 0 0 0 Return]) = Inr s \<and>
        submitted s = [(0, 0, 0)] \<and> returned s 0 = Some 0 \<and> completed s = [] \<and>
        stacks s = [[User (Return 0)], [Task None 0 0 (Return 7)]]"
    by (simp add: run_defs host2_def bad_task_def)
  show "run host2 [0, 0, 0, 1, 0, 1] (initial 0 [Par_for 0 bad_task 0 0 0 Return]) =
     Inl (Dangling_job 0)"
    by (simp add: run_defs host2_def bad_task_def)
qed

theorem failure_is_reported_witness:
  "reachable host2 1 [Par_for 0 bad_task 5 1 0 Return] failed_state \<and>
   stacks leave_state = [[Leave 0, User (Par_for 0 bad_task 5 1 0 Return)]] \<and>
   exit_status (heap leave_state 0) = 7 \<and>
   step host2 0 leave_state =
     Inr (leave_state\<lparr>returned := (returned leave_state)(0 \<mapsto> 7),
            stacks := [[User (Return 7)]]\<rparr>) \<and>
   submitted failed_state = [(0, 5, 1)] \<and> invoked failed_state = [(0, 5)] \<and>
   completed failed_state = [(0, 5, 7)] \<and> returned failed_state 0 = Some 7 \<and>
   stacks failed_state = [[User (Return 7)]] \<and>
   exit_status (heap (after_task 0 (Some 0) 0 6 0 failed_state) 0) = 7"
proof -
  have l: "stacks leave_state = [[Leave 0, User (Par_for 0 bad_task 5 1 0 Return)]]"
    "exit_status (heap leave_state 0) = 7"
    by (simp_all add: leave_state_def run_defs host2_def bad_task_def)
  have e: "returned failed_state 0 = Some 7" "completed failed_state = [(0, 5, 7)]"
    "exit_status (heap failed_state 0) = 7" "submitted failed_state = [(0, 5, 1)]"
    "invoked failed_state = [(0, 5)]" "stacks failed_state = [[User (Return 7)]]"
    by (simp_all add: failed_state_def run_defs host2_def bad_task_def)
  show ?thesis
    using failure_is_reported[where ?s0.0=leave_state and t=0 and ?job0.0=0 and uc=0
        and f=bad_task and mn=5 and sz=1 and cl=0 and k=Return and rest="[]" and h=host2
        and ?n0.0=1 and clients="[Par_for 0 bad_task 5 1 0 Return]" and s=failed_state
        and job=0 and r=7 and owned="Some 0" and job'=0 and idx'=6 and result=0
        and s'=failed_state]
      failed_state_reachable l e
    by simp
qed

text \<open>
  \<^bold>\<open>C3\<close> (fails for \<open>size = 0\<close>). In every reachable state of a run whose submissions so
  far all had \<open>size > 0\<close>: a job whose owner has left the loop of \<^verbatim>\<open>worker_thread (&job)\<close>
  (line 132), or has returned from \<^verbatim>\<open>default_do_par_for\<close>, is not running (neither
  \<open>next < max\<close> nor an active worker), and no thread is inside a task claimed from it. The
  value returned is the job's exit status. While the owned job is running, the loop of
  its owner does not end: the step leaves the thread inside \<^verbatim>\<open>worker_thread (&job)\<close>; when
  the job is not running, the step leaves the loop. But \<^verbatim>\<open>par_for (0, 0)\<close> on a pool of two
  threads: the submitter finds its empty job not running and leaves the loop; the job is
  still on the stack, the spawned worker claims from it, and the submitter returns while
  the worker is inside the task it has claimed from the job.
\<close>

theorem returns_when_job_done:
  "(reachable h n0 clients s \<and> (\<forall>(job, mn, sz) \<in> set (submitted s). 0 < sz) \<and>
    (0 < leaving s job \<or> returned s job \<noteq> None)
    \<longrightarrow> \<not> work_running (heap s job) \<and>
        (\<forall>fs \<in> set (stacks s). \<forall>fr \<in> set fs. \<not> runs job fr)) \<and>
   (reachable h n0 clients s \<and> returned s job = Some r \<longrightarrow> r = exit_status (heap s job)) \<and>
   (t < length (stacks s') \<and> work_running (heap s' oj) \<and>
    worker_thread_loop t (Some oj) s' = Inr s''
    \<longrightarrow> returned s'' = returned s' \<and> owns oj (hd (stacks s'' ! t)) \<and>
        \<not> leaves oj (hd (stacks s'' ! t))) \<and>
   (\<not> work_running (heap s' oj)
    \<longrightarrow> worker_thread_loop t (Some oj) s' = Inr (set_top t (Leave oj) s')) \<and>
   (\<exists>s. run host2 [0, 0, 0, 1, 0] (initial 0 [Par_for 0 ok_task 0 0 0 Return]) = Inr s \<and>
        submitted s = [(0, 0, 0)] \<and> returned s 0 = Some 0 \<and>
        stacks s = [[User (Return 0)], [Task None 0 0 (Return 0)]] \<and>
        work_running (heap s 0))"
proof (intro conjI impI)
  assume a: "reachable h n0 clients s \<and> (\<forall>(job, mn, sz) \<in> set (submitted s). 0 < sz) \<and>
    (0 < leaving s job \<or> returned s job \<noteq> None)"
  then have reach: "reachable h n0 clients s" and pos: "sizes_pos s"
    and q: "0 < leaving s job \<or> returned s job \<noteq> None"
    by (simp_all add: sizes_pos_def)
  show "\<not> work_running (heap s job)"
    and "\<forall>fs \<in> set (stacks s). \<forall>fr \<in> set fs. \<not> runs job fr"
    using returned_job_idle[OF reach pos q] by simp_all
next
  assume "reachable h n0 clients s \<and> returned s job = Some r"
  then show "r = exit_status (heap s job)"
    using jobs_invD(8)[OF reachable_jobs_inv, of h n0 clients s job r] by simp
next
  assume a: "t < length (stacks s') \<and> work_running (heap s' oj) \<and>
    worker_thread_loop t (Some oj) s' = Inr s''"
  then show "returned s'' = returned s'" and "owns oj (hd (stacks s'' ! t))"
    and "\<not> leaves oj (hd (stacks s'' ! t))"
    by (auto simp add: worker_thread_loop_def claim_def set_top_def Let_def
        split: option.splits if_splits)
next
  assume "\<not> work_running (heap s' oj)"
  then show "worker_thread_loop t (Some oj) s' = Inr (set_top t (Leave oj) s')"
    by (simp add: worker_thread_loop_def worker_thread_return_def)
next
  show "\<exists>s. run host2 [0, 0, 0, 1, 0] (initial 0 [Par_for 0 ok_task 0 0 0 Return]) = Inr s \<and>
        submitted s = [(0, 0, 0)] \<and> returned s 0 = Some 0 \<and>
        stacks s = [[User (Return 0)], [Task None 0 0 (Return 0)]] \<and>
        work_running (heap s 0)"
    by (simp add: run_defs host2_def ok_task_def)
qed

theorem returns_when_job_done_witness:
  "reachable host2 1 [Par_for 0 bad_task 5 1 0 Return] failed_state \<and>
   submitted failed_state = [(0, 5, 1)] \<and>
   returned failed_state 0 = Some 7 \<and> \<not> work_running (heap failed_state 0) \<and>
   exit_status (heap failed_state 0) = 7 \<and> stacks failed_state = [[User (Return 7)]]"
proof -
  have e: "returned failed_state 0 = Some 7" "stacks failed_state = [[User (Return 7)]]"
    "submitted failed_state = [(0, 5, 1)]"
    by (simp_all add: failed_state_def run_defs host2_def bad_task_def)
  show ?thesis
    using returns_when_job_done[of host2 1 "[Par_for 0 bad_task 5 1 0 Return]" failed_state 0 7
        0 failed_state 0 failed_state] failed_state_reachable e
    by simp
qed

text \<open>
  \<^bold>\<open>C5.\<close> A claim step on a job whose cursor is at its bound (\<open>next = max\<close>, as for a job
  of size 0) moves \<open>next\<close> to \<open>max + 1\<close>, leaves the job on the stack (the test
  \<open>next = max\<close> of line 102 fails), and starts the task at the index \<open>max\<close>, which is out
  of the job's range. A claim step on a job whose cursor is at or past its bound leaves
  the cursor past the bound and the job on the stack, so the job is never unlinked.
\<close>

theorem claim_on_empty_job:
  "(jobs (work_queue s) = Some job \<and> next_idx (heap s job) = max_idx (heap s job) \<and>
    returned s job = None \<and> queue_running (work_queue s) \<and> t < length (stacks s)
    \<longrightarrow> (\<exists>s'. worker_thread_loop t None s = Inr s' \<and>
           max_idx (heap s' job) = max_idx (heap s job) \<and>
           next_idx (heap s' job) = max_idx (heap s job) + 1 \<and>
           jobs (work_queue s') = Some job \<and>
           invoked s' = invoked s @ [(job, max_idx (heap s job))] \<and>
           hd (stacks s' ! t) =
             Task None job (max_idx (heap s job))
               (f_task (heap s job) (user_context (heap s job)) (max_idx (heap s job))
                  (closure (heap s job))))) \<and>
   (jobs (work_queue s) = Some job \<and> max_idx (heap s job) \<le> next_idx (heap s job)
    \<longrightarrow> jobs (work_queue (claim t owned job s)) = Some job \<and>
        max_idx (heap (claim t owned job s) job) < next_idx (heap (claim t owned job s) job))"
  by (simp add: worker_thread_loop_def claim_def set_top_def Let_def default_do_task_def)

theorem claim_on_empty_job_witness:
  "jobs (work_queue empty_job_state) = Some 0 \<and>
   next_idx (heap empty_job_state 0) = 0 \<and> max_idx (heap empty_job_state 0) = 0 \<and>
   submitted empty_job_state = [(0, 0, 0)] \<and>
   (\<exists>s'. worker_thread_loop 1 None empty_job_state = Inr s' \<and>
      next_idx (heap s' 0) = 1 \<and> max_idx (heap s' 0) = 0 \<and> jobs (work_queue s') = Some 0 \<and>
      invoked s' = [(0, 0)] \<and> hd (stacks s' ! 1) = Task None 0 0 (Return 0))"
proof -
  have e: "jobs (work_queue empty_job_state) = Some 0" "next_idx (heap empty_job_state 0) = 0"
    "max_idx (heap empty_job_state 0) = 0" "submitted empty_job_state = [(0, 0, 0)]"
    "returned empty_job_state 0 = None" "queue_running (work_queue empty_job_state)"
    "length (stacks empty_job_state) = 2" "invoked empty_job_state = []"
    "f_task (heap empty_job_state 0) = ok_task"
    by (simp_all add: empty_job_state_def run_defs host2_def)
  show ?thesis
    using claim_on_empty_job[of empty_job_state 0 1 None] e
    by (auto simp add: ok_task_def)
qed

text \<open>
  \<^bold>\<open>C6.\<close> The critical section of a submission (lines 139-204) sets
  \<^verbatim>\<open>target_a_team_size\<close> to \<open>size\<close> exactly when the job stack, as it is before the push
  and after lazy initialization, is empty and \<open>size < num_threads\<close>, and to
  \<^verbatim>\<open>num_threads\<close> otherwise; then it pushes the job on that stack.
\<close>

theorem team_sizing:
  "target_a_team_size (work_queue (default_do_par_for_enter h t uc f mn sz cl s)) =
     spec_target_a_team_size (jobs (work_queue (lazy_init h s))) sz (num_threads (lazy_init h s))
   \<and> jobs (work_queue (default_do_par_for_enter h t uc f mn sz cl s)) = Some (n_alloc s)
   \<and> next_job (heap (default_do_par_for_enter h t uc f mn sz cl s) (n_alloc s)) =
       jobs (work_queue (lazy_init h s))"
  by (simp add: default_do_par_for_enter_def push_job_def push_frame_def Let_def
      spec_target_a_team_size_def make_job_def lazy_init_def)

text \<open>
  \<^bold>\<open>C7.\<close> Lazy initialization of a pool that is not initialized: \<^verbatim>\<open>num_threads\<close>, when it
  is still zero, is read from \<^verbatim>\<open>HL_NUM_THREADS\<close>, else from \<^verbatim>\<open>HL_NUMTHREADS\<close>, else taken
  from the host's CPU count; the value is clamped into \<open>[1, 64]\<close>;
  \<open>num_threads - 1\<close> threads are spawned at \<^verbatim>\<open>worker_thread (NULL)\<close>, their handles are
  kept in \<^verbatim>\<open>threads\<close>, and everyone starts on the A team.
\<close>

theorem lazy_init_pool_size:
  "\<not> thread_pool_initialized s \<longrightarrow>
     num_threads (lazy_init h s) =
       spec_clamp (if num_threads s = 0 then spec_requested_threads h else num_threads s) \<and>
     1 \<le> num_threads (lazy_init h s) \<and> num_threads (lazy_init h s) \<le> 64 \<and>
     stacks (lazy_init h s) =
       stacks s @ replicate (nat (num_threads (lazy_init h s) - 1)) [Enter None] \<and>
     (\<forall>i. int i < num_threads (lazy_init h s) - 1 \<longrightarrow>
        threads (work_queue (lazy_init h s)) i = length (stacks s) + i) \<and>
     a_team_size (work_queue (lazy_init h s)) = num_threads (lazy_init h s) \<and>
     thread_pool_initialized (lazy_init h s)"
  by (auto simp add: lazy_init_def pool_size_def Let_def spec_clamp_def spec_requested_threads_def
      MAX_THREADS_def split: option.splits)

theorem lazy_init_pool_size_witness:
  "\<not> thread_pool_initialized (initial 0 [Return 0]) \<and>
   num_threads (lazy_init host2 (initial 0 [Return 0])) = 2 \<and>
   stacks (lazy_init host2 (initial 0 [Return 0])) = [[User (Return 0)], [Enter None]] \<and>
   threads (work_queue (lazy_init host2 (initial 0 [Return 0]))) 0 = 1 \<and>
   a_team_size (work_queue (lazy_init host2 (initial 0 [Return 0]))) = 2"
  using lazy_init_pool_size[of "initial 0 [Return 0]" host2]
  by (simp add: initial_def host2_def spec_clamp_def spec_requested_threads_def MAX_THREADS_def)

text \<open>
  \<^bold>\<open>C8.\<close> Invariant I4. In every reachable state of a program whose submissions so far
  all had \<open>size \<ge> 0\<close> (and whose \<^verbatim>\<open>num_threads\<close> was not negative at program start),
  \<^verbatim>\<open>a_team_size\<close> and \<^verbatim>\<open>target_a_team_size\<close> are in \<open>[0, num_threads]\<close>. Lazy initialization
  establishes \<open>a_team_size = num_threads\<close>.
\<close>

theorem team_sizes_in_range:
  "(reachable h n0 clients s \<and> 0 \<le> n0 \<and> (\<forall>(job, mn, sz) \<in> set (submitted s). 0 \<le> sz)
    \<longrightarrow> 0 \<le> a_team_size (work_queue s) \<and> a_team_size (work_queue s) \<le> num_threads s \<and>
        0 \<le> target_a_team_size (work_queue s) \<and>
        target_a_team_size (work_queue s) \<le> num_threads s) \<and>
   (\<not> thread_pool_initialized s'
    \<longrightarrow> a_team_size (work_queue (lazy_init h s')) = num_threads (lazy_init h s'))"
proof (rule conjI; rule impI)
  assume a: "reachable h n0 clients s \<and> 0 \<le> n0 \<and>
    (\<forall>(job, mn, sz) \<in> set (submitted s). 0 \<le> sz)"
  then have "reachable h n0 clients s" and "sizes_ok s" by (auto simp add: sizes_ok_def)
  then have "team_inv n0 s" by (rule reachable_team_inv)
  moreover from a have "0 \<le> n0" by simp
  ultimately show "0 \<le> a_team_size (work_queue s) \<and>
        a_team_size (work_queue s) \<le> num_threads s \<and>
        0 \<le> target_a_team_size (work_queue s) \<and>
        target_a_team_size (work_queue s) \<le> num_threads s"
    by (rule team_inv_I4)
next
  assume "\<not> thread_pool_initialized s'"
  then show "a_team_size (work_queue (lazy_init h s')) = num_threads (lazy_init h s')"
    by (simp add: lazy_init_def Let_def)
qed

theorem team_sizes_in_range_witness:
  "reachable host2 0 [Par_for 0 ok_task 0 1 0 Return] b_team_state \<and>
   submitted b_team_state = [(0, 0, 1)] \<and>
   stacks b_team_state =
     [[Task (Some 0) 0 0 (Return 0), User (Par_for 0 ok_task 0 1 0 Return)],
      [Wait Wakeup_b_team None]] \<and>
   a_team_size (work_queue b_team_state) = 1 \<and> target_a_team_size (work_queue b_team_state) = 1 \<and>
   num_threads b_team_state = 2 \<and>
   a_team_size (work_queue (lazy_init host2 (initial 0 []))) = 2"
proof -
  have e: "submitted b_team_state = [(0, 0, 1)]"
    "stacks b_team_state =
     [[Task (Some 0) 0 0 (Return 0), User (Par_for 0 ok_task 0 1 0 Return)],
      [Wait Wakeup_b_team None]]"
    "a_team_size (work_queue b_team_state) = 1" "target_a_team_size (work_queue b_team_state) = 1"
    "num_threads b_team_state = 2"
    by (simp_all add: b_team_state_def run_defs host2_def ok_task_def)
  have i: "num_threads (lazy_init host2 (initial 0 [])) = 2"
    by (simp add: run_defs host2_def)
  show ?thesis
    using team_sizes_in_range[of host2 0 "[Par_for 0 ok_task 0 1 0 Return]" b_team_state
        "initial 0 []"] b_team_state_reachable e i
    by (simp add: initial_def)
qed

lemma restart_state_run:
  "run host2 restart_schedule (initial 0 [restart_prog]) = Inr restart_state"
  by (simp add: restart_state_def restart_schedule_def restart_prog_def run_defs host2_def
      ok_task_def)

lemma pre_shutdown_state_run:
  "run host2 (take 8 restart_schedule) (initial 0 [restart_prog]) = Inr pre_shutdown_state"
  by (simp add: pre_shutdown_state_def restart_schedule_def restart_prog_def run_defs host2_def
      ok_task_def)

lemma joining_state_run:
  "run host2 (take 10 restart_schedule) (initial 0 [restart_prog]) = Inr joining_state"
  by (simp add: joining_state_def restart_schedule_def restart_prog_def run_defs host2_def
      ok_task_def)






text \<open>
  \<^bold>\<open>C1\<close> (fails for \<open>size = 0\<close>). In every reachable state of a run whose submissions so
  far all had \<open>size > 0\<close>: once the activation for the job \<open>(min, size)\<close> has returned
  \<open>r\<close>, the indices at which the job's task was invoked are \<open>min, \<dots>, min + size - 1\<close>, each
  once, no thread is inside a task of the job, each of these indices has exactly one
  finished invocation and no other index has one, and \<open>r = 0\<close> if every invocation of the
  job's task returned zero. But \<^verbatim>\<open>par_for (0, 0)\<close> on a pool of two threads: the submitter
  pushes the empty job; the spawned worker finds it on the stack and claims from it, so
  the task is invoked at index 0 although the range is empty. When instead the submitter
  runs first, it returns at once and leaves the job on the stack, and the next step of the
  worker uses the work record of an activation that has returned.
\<close>

theorem par_for_invokes_each_index_once:
  "(reachable h n0 clients s \<and> (\<forall>(job, mn, sz) \<in> set (submitted s). 0 < sz) \<and>
    (job, mn, sz) \<in> set (submitted s) \<and> returned s job = Some r
    \<longrightarrow> claimed s job = [mn .. mn + sz - 1] \<and>
        (\<forall>fs \<in> set (stacks s). \<forall>fr \<in> set fs. \<not> runs job fr) \<and>
        (\<forall>idx. finished s job idx = (if mn \<le> idx \<and> idx < mn + sz then 1 else 0)) \<and>
        ((\<forall>idx status. (job, idx, status) \<in> set (completed s) \<longrightarrow> status = 0) \<longrightarrow> r = 0)) \<and>
   (\<exists>s. run host2 [0, 1] (initial 0 [Par_for 0 ok_task 0 0 0 Return]) = Inr s \<and>
        submitted s = [(0, 0, 0)] \<and> invoked s = [(0, 0)] \<and>
        stacks s ! 1 = [Task None 0 0 (Return 0)]) \<and>
   run host2 [0, 0, 0, 0, 1] (initial 0 [Par_for 0 ok_task 0 0 0 Return]) = Inl (Dangling_job 0)"
proof (intro conjI impI)
  assume a: "reachable h n0 clients s \<and> (\<forall>(job, mn, sz) \<in> set (submitted s). 0 < sz) \<and>
    (job, mn, sz) \<in> set (submitted s) \<and> returned s job = Some r"
  then have reach: "reachable h n0 clients s" and pos: "sizes_pos s"
    and sub: "(job, mn, sz) \<in> set (submitted s)" and ret: "returned s job = Some r"
    by (simp_all add: sizes_pos_def)
  note jinv = reachable_jobs_inv[OF reach]
  note oinv = reachable_order_inv[OF reach pos]
  have q: "0 < leaving s job \<or> returned s job \<noteq> None" using ret by simp
  have "\<not> work_running (heap s job)" using returned_job_idle(1)[OF reach pos q] .
  then have "max_idx (heap s job) \<le> next_idx (heap s job)" by (simp add: work_running_def)
  with order_invD(3)[OF oinv, of job] have "next_idx (heap s job) = max_idx (heap s job)"
    by simp
  with order_invD(1)[OF oinv sub] show cl: "claimed s job = [mn .. mn + sz - 1]" by simp
  show "\<forall>idx. finished s job idx = (if mn \<le> idx \<and> idx < mn + sz then 1 else 0)"
  proof
    fix idx
    have "finished s job idx = length (filter (\<lambda>i. i = idx) [mn .. mn + sz - 1])"
      using returned_job_finished[OF reach pos q, of idx] started_claimed[of s job idx] cl
      by simp
    then show "finished s job idx = (if mn \<le> idx \<and> idx < mn + sz then 1 else 0)"
      by (simp add: upto_count)
  qed
  show "\<forall>fs \<in> set (stacks s). \<forall>fr \<in> set fs. \<not> runs job fr"
    using returned_job_idle(2)[OF reach pos q] .
  assume zero: "\<forall>idx status. (job, idx, status) \<in> set (completed s) \<longrightarrow> status = 0"
  then have "\<not> (\<exists>x. failed_with s job x)" by (auto simp add: failed_with_def)
  moreover have "if \<exists>x. failed_with s job x then failed_with s job (exit_status (heap s job))
      else exit_status (heap s job) = 0"
    using reachable_status_inv[OF reach] by (simp add: status_inv_def)
  ultimately have "exit_status (heap s job) = 0" by simp
  then show "r = 0" using jobs_invD(8)[OF jinv ret] by simp
next
  show "\<exists>s. run host2 [0, 1] (initial 0 [Par_for 0 ok_task 0 0 0 Return]) = Inr s \<and>
        submitted s = [(0, 0, 0)] \<and> invoked s = [(0, 0)] \<and>
        stacks s ! 1 = [Task None 0 0 (Return 0)]"
    by (simp add: run_defs host2_def ok_task_def)
  show "run host2 [0, 0, 0, 0, 1] (initial 0 [Par_for 0 ok_task 0 0 0 Return]) = Inl (Dangling_job 0)"
    by (simp add: run_defs host2_def ok_task_def)
qed

theorem par_for_invokes_each_index_once_witness:
  "reachable host2 0 [restart_prog] restart_state \<and>
   submitted restart_state = [(0, 0, 2), (1, 5, 1)] \<and>
   completed restart_state = [(0, 0, 0), (0, 1, 0), (1, 5, 0)] \<and>
   returned restart_state 0 = Some 0 \<and> claimed restart_state 0 = [0, 1] \<and>
   finished restart_state 0 1 = 1"
proof -
  have e: "submitted restart_state = [(0, 0, 2), (1, 5, 1)]"
    "completed restart_state = [(0, 0, 0), (0, 1, 0), (1, 5, 0)]"
    "returned restart_state 0 = Some 0"
    by (simp_all add: restart_state_def restart_schedule_def restart_prog_def run_defs host2_def
        ok_task_def)
  have r: "reachable host2 0 [restart_prog] restart_state"
    by (rule reachable_run[OF reachable.start restart_state_run])
  have u: "[0 .. 0 + 2 - 1] = [0, 1::int]" by (simp add: upto.simps)
  show ?thesis
    using par_for_invokes_each_index_once[of host2 0 "[restart_prog]" restart_state 0 0 2 0]
      e r u
    by simp
qed

text \<open>
  \<^bold>\<open>C4\<close> (fails for \<open>size = 0\<close>). In every reachable state of a run whose submissions so
  far all had \<open>size > 0\<close>: no job has \<open>next\<close> past \<open>max\<close>; a job on the stack has
  \<open>next < max\<close>, so that a job with \<open>next = max\<close> has been unlinked; and, as long as the
  pool has not been shut down, a work record with \<open>next < max\<close> is on the stack. But after
  the critical section of \<^verbatim>\<open>par_for (0, 0)\<close> the job has \<open>next = max\<close> and is the top of the
  stack; it still is after its owner has returned.
\<close>

theorem empty_job_stays_linked:
  "(reachable h n0 clients s \<and> (\<forall>(job, mn, sz) \<in> set (submitted s). 0 < sz)
    \<longrightarrow> next_idx (heap s job) \<le> max_idx (heap s job) \<and>
        (job \<in> set (job_stack s) \<longrightarrow> next_idx (heap s job) < max_idx (heap s job)) \<and>
        (shutdowns s = 0 \<and> job < n_alloc s \<and> next_idx (heap s job) < max_idx (heap s job)
         \<longrightarrow> job \<in> set (job_stack s))) \<and>
   reachable host2 0 [Par_for 0 ok_task 0 0 0 Return] empty_job_state \<and>
   submitted empty_job_state = [(0, 0, 0)] \<and>
   jobs (work_queue empty_job_state) = Some 0 \<and>
   next_idx (heap empty_job_state 0) = max_idx (heap empty_job_state 0) \<and>
   run host2 [0, 0, 0, 0] (initial 0 [Par_for 0 ok_task 0 0 0 Return]) =
     Inr empty_job_returned_state \<and>
   returned empty_job_returned_state 0 = Some 0 \<and>
   jobs (work_queue empty_job_returned_state) = Some 0 \<and>
   next_idx (heap empty_job_returned_state 0) = max_idx (heap empty_job_returned_state 0)"
proof (intro conjI impI)
  assume a: "reachable h n0 clients s \<and> (\<forall>(job, mn, sz) \<in> set (submitted s). 0 < sz)"
  then have reach: "reachable h n0 clients s" and pos: "sizes_pos s"
    by (simp_all add: sizes_pos_def)
  note oinv = reachable_order_inv[OF reach pos]
  show "next_idx (heap s job) \<le> max_idx (heap s job)" using order_invD(3)[OF oinv] .
  {
    assume "job \<in> set (job_stack s)"
    then show "next_idx (heap s job) < max_idx (heap s job)" by (rule order_invD(4)[OF oinv])
  }
  {
    assume "shutdowns s = 0 \<and> job < n_alloc s \<and> next_idx (heap s job) < max_idx (heap s job)"
    then show "job \<in> set (job_stack s)"
      using reachable_link_inv[OF reach pos] by (simp add: link_inv_def)
  }
qed (use empty_job_state_reachable in
    \<open>simp_all add: empty_job_state_def empty_job_returned_state_def run_defs host2_def
      ok_task_def\<close>)

lemma pushed_state_run:
  "run host2 [0] (initial 0 [Par_for 0 ok_task 0 1 0 Return]) = Inr pushed_state"
  by (simp add: pushed_state_def run_defs host2_def ok_task_def)

theorem empty_job_stays_linked_witness:
  "reachable host2 0 [Par_for 0 ok_task 0 1 0 Return] pushed_state \<and>
   submitted pushed_state = [(0, 0, 1)] \<and> shutdowns pushed_state = 0 \<and>
   n_alloc pushed_state = 1 \<and> job_stack pushed_state = [0] \<and>
   next_idx (heap pushed_state 0) = 0 \<and> max_idx (heap pushed_state 0) = 1"
proof -
  have e: "submitted pushed_state = [(0, 0, 1)]" "shutdowns pushed_state = 0"
    "n_alloc pushed_state = 1" "job_stack pushed_state = [0]"
    "next_idx (heap pushed_state 0) = 0" "max_idx (heap pushed_state 0) = 1"
    by (simp_all add: pushed_state_def run_defs host2_def ok_task_def job_stack_def
        chain.simps[of _ 0])
  have r: "reachable host2 0 [Par_for 0 ok_task 0 1 0 Return] pushed_state"
    by (rule reachable_run[OF reachable.start pushed_state_run])
  show ?thesis
    using empty_job_stays_linked[of host2 0 "[Par_for 0 ok_task 0 1 0 Return]" pushed_state 0]
      e r
    by simp
qed

text \<open>
  \<^bold>\<open>C9\<close> (fails for an inner \<open>size = 0\<close>). For code whose submissions all have \<open>size > 0\<close>
  (and that does not shut the pool down): a thread that stands in such code, in any
  reachable state, reaches the end of that code in finitely many steps of its own, with no
  step of any other thread, whatever the other threads were doing when they stopped; this
  covers every nested submission the code makes. But on a pool of one thread, an outer
  \<^verbatim>\<open>par_for (0, 2)\<close> whose task calls \<^verbatim>\<open>par_for (0, 0)\<close> does not complete: the inner call
  returns and leaves its job on top of the outer one, and the next claim of the outer loop
  uses the work record of the inner activation, which has returned.
\<close>

theorem nested_submissions:
  "(wf_prog p \<and> reachable h n0 clients s \<and> t < length (stacks s) \<and>
    stacks s ! t = fr # rest \<and> prog_of fr = Some p
    \<longrightarrow> (\<exists>n s' r. alone h t n s = Inr s' \<and> stacks s' ! t = set_prog (Return r) fr # rest)) \<and>
   run host2 [0, 0, 0, 0, 0, 0, 0, 0] (initial 1 [nested_empty_prog]) = Inl (Dangling_job 1) \<and>
   (\<exists>s. run host2 [0, 0, 0, 0, 0, 0, 0] (initial 1 [nested_empty_prog]) = Inr s \<and>
        submitted s = [(0, 0, 2), (1, 0, 0)] \<and> returned s 1 = Some 0 \<and>
        jobs (work_queue s) = Some 1 \<and> next_job (heap s 1) = Some 0 \<and>
        stacks s ! 0 = [Task (Some 0) 0 0 (Return 0), User nested_empty_prog])"
proof (intro conjI impI)
  assume a: "wf_prog p \<and> reachable h n0 clients s \<and> t < length (stacks s) \<and>
    stacks s ! t = fr # rest \<and> prog_of fr = Some p"
  then have "reachable h n0 clients s" by simp
  then have "fresh s" by (rule reachable_fresh)
  from submitter_alone_finishes[OF _ _ this, of p t fr rest h] a
  show "\<exists>n s' r. alone h t n s = Inr s' \<and> stacks s' ! t = set_prog (Return r) fr # rest"
    by blast
next
  show "run host2 [0, 0, 0, 0, 0, 0, 0, 0] (initial 1 [nested_empty_prog]) = Inl (Dangling_job 1)"
    by (simp add: nested_empty_prog_def run_defs host2_def ok_task_def)
  show "\<exists>s. run host2 [0, 0, 0, 0, 0, 0, 0] (initial 1 [nested_empty_prog]) = Inr s \<and>
        submitted s = [(0, 0, 2), (1, 0, 0)] \<and> returned s 1 = Some 0 \<and>
        jobs (work_queue s) = Some 1 \<and> next_job (heap s 1) = Some 0 \<and>
        stacks s ! 0 = [Task (Some 0) 0 0 (Return 0), User nested_empty_prog]"
    by (simp add: nested_empty_prog_def run_defs host2_def ok_task_def)
qed

lemma engaged_state_run: "run host2 [0, 0, 0, 1] (initial 0 [nested_prog]) = Inr engaged_state"
  by (simp add: engaged_state_def nested_prog_def inner_prog_def run_defs host2_def ok_task_def)

lemma engaged_state_reachable: "reachable host2 0 [nested_prog] engaged_state"
  by (rule reachable_run[OF reachable.start engaged_state_run])

theorem nested_submissions_witness:
  "wf_prog inner_prog \<and> reachable host2 0 [nested_prog] engaged_state \<and>
   stacks engaged_state =
     [[Task (Some 0) 0 0 inner_prog, User nested_prog], [Task None 0 1 inner_prog]] \<and>
   (\<exists>n s' r. alone host2 0 n engaged_state = Inr s' \<and>
      stacks s' ! 0 = [Task (Some 0) 0 0 (Return r), User nested_prog])"
proof -
  have w: "wf_prog inner_prog" by (simp add: inner_prog_def ok_task_def)
  have e: "stacks engaged_state =
     [[Task (Some 0) 0 0 inner_prog, User nested_prog], [Task None 0 1 inner_prog]]"
    by (simp add: engaged_state_def nested_prog_def inner_prog_def run_defs host2_def ok_task_def)
  show ?thesis
    using nested_submissions[of inner_prog host2 0 "[nested_prog]" engaged_state 0
        "Task (Some 0) 0 0 inner_prog" "[User nested_prog]"] w e engaged_state_reachable
    by simp
qed

end
